theory Spec2Isabelle
  imports Complex_Main
begin

section \<open>Numbers\<close>

text \<open>
  A tensor entry is a mathematical real, or the undefined value that floating point
  calls NaN. Rounding and overflow are not modelled. The only way the program makes an
  undefined value out of defined ones is a quotient whose divisor is zero, the square
  root of a negative number or the mean of nothing; once made it spreads through every
  operation it meets.
\<close>

type_synonym val = "real option"

definition lift2 :: "(real \<Rightarrow> real \<Rightarrow> real) \<Rightarrow> val \<Rightarrow> val \<Rightarrow> val" where
  "lift2 f a b = (case a of None \<Rightarrow> None | Some x \<Rightarrow> (case b of None \<Rightarrow> None | Some y \<Rightarrow> Some (f x y)))"

definition fadd :: "val \<Rightarrow> val \<Rightarrow> val" where
  "fadd = lift2 (+)"

definition fsub :: "val \<Rightarrow> val \<Rightarrow> val" where
  "fsub = lift2 (-)"

definition fmul :: "val \<Rightarrow> val \<Rightarrow> val" where
  "fmul = lift2 (*)"

definition fdiv :: "val \<Rightarrow> val \<Rightarrow> val" where
  \<comment> \<open>The model has no infinities: every quotient by zero is undefined. In the program a
      zero divisor only ever meets a zero dividend, where IEEE gives NaN too.\<close>
  "fdiv a b = (case a of None \<Rightarrow> None | Some x \<Rightarrow>
     (case b of None \<Rightarrow> None | Some y \<Rightarrow> if y = 0 then None else Some (x / y)))"

definition fsqrt :: "val \<Rightarrow> val" where
  "fsqrt a = (case a of None \<Rightarrow> None | Some x \<Rightarrow> if x < 0 then None else Some (sqrt x))"

definition fexp :: "val \<Rightarrow> val" where
  "fexp a = map_option exp a"

definition fsum :: "val list \<Rightarrow> val" where
  "fsum xs = foldr fadd xs (Some 0)"

section \<open>Tensors\<close>

datatype error = ShapeError | DimError | IndexError | UnboundLocalError | AttributeError

record tensor =
  shape :: "nat list"
  elem :: "nat list \<Rightarrow> val"

definition valid_index :: "nat list \<Rightarrow> nat list \<Rightarrow> bool" where
  "valid_index s idx = list_all2 (\<lambda>i n. i < n) idx s"

definition mk :: "nat list \<Rightarrow> (nat list \<Rightarrow> val) \<Rightarrow> tensor" where
  \<comment> \<open>A tensor has entries at the indices of its shape only.\<close>
  "mk s f = \<lparr>shape = s, elem = (\<lambda>idx. if valid_index s idx then f idx else None)\<rparr>"

definition bindE :: "error + 'a \<Rightarrow> ('a \<Rightarrow> error + 'b) \<Rightarrow> error + 'b" where
  "bindE m f = (case m of Inl e \<Rightarrow> Inl e | Inr v \<Rightarrow> f v)"

definition norm_dim :: "nat \<Rightarrow> int \<Rightarrow> nat option" where
  \<comment> \<open>A dimension argument counts from the end when negative.\<close>
  "norm_dim n d = (if - int n \<le> d \<and> d < int n then Some (nat (if d < 0 then d + int n else d)) else None)"

definition map_t :: "(val \<Rightarrow> val) \<Rightarrow> tensor \<Rightarrow> tensor" where
  "map_t f t = mk (shape t) (\<lambda>idx. f (elem t idx))"

fun bshape_rev :: "nat list \<Rightarrow> nat list \<Rightarrow> nat list option" where
  "bshape_rev [] ys = Some ys"
| "bshape_rev (x # xs) [] = Some (x # xs)"
| "bshape_rev (x # xs) (y # ys) =
     (if x = y \<or> y = 1 then map_option ((#) x) (bshape_rev xs ys)
      else if x = 1 then map_option ((#) y) (bshape_rev xs ys)
      else None)"

definition broadcast_shapes :: "nat list \<Rightarrow> nat list \<Rightarrow> nat list option" where
  \<comment> \<open>Shapes are aligned at their last dimension; a dimension of size 1 stretches.\<close>
  "broadcast_shapes a b = map_option rev (bshape_rev (rev a) (rev b))"

definition bidx :: "nat list \<Rightarrow> nat list \<Rightarrow> nat list" where
  \<comment> \<open>The index an operand of shape \<open>s\<close> is read at, for an index of the broadcast shape.\<close>
  "bidx s idx = map2 (\<lambda>n i. if n = 1 then 0 else i) s (drop (length idx - length s) idx)"

definition binop :: "(val \<Rightarrow> val \<Rightarrow> val) \<Rightarrow> tensor \<Rightarrow> tensor \<Rightarrow> error + tensor" where
  "binop f a b = (case broadcast_shapes (shape a) (shape b) of
       None \<Rightarrow> Inl ShapeError
     | Some s \<Rightarrow> Inr (mk s (\<lambda>idx. f (elem a (bidx (shape a) idx)) (elem b (bidx (shape b) idx)))))"

definition sum_dim :: "tensor \<Rightarrow> int \<Rightarrow> bool \<Rightarrow> error + tensor" where
  \<comment> \<open>\<^verbatim>\<open>t.sum(dim=d, keepdim=k)\<close>\<close>
  "sum_dim t d keepdim = (case norm_dim (length (shape t)) d of
       None \<Rightarrow> Inl DimError
     | Some j \<Rightarrow>
         if keepdim
         then Inr (mk ((shape t)[j := 1])
                 (\<lambda>idx. fsum (map (\<lambda>k. elem t (idx[j := k])) [0..<shape t ! j])))
         else if length (shape t) = 1
         then Inr (mk [1] (\<lambda>idx. fsum (map (\<lambda>k. elem t [k]) [0..<shape t ! j])))
         else Inr (mk (take j (shape t) @ drop (Suc j) (shape t))
                 (\<lambda>idx. fsum (map (\<lambda>k. elem t (take j idx @ k # drop j idx)) [0..<shape t ! j]))))"

section \<open>CapsuleLayer.squash\<close>

definition squash :: "tensor \<Rightarrow> int \<Rightarrow> error + tensor" where
  "squash t d =
     bindE (sum_dim (map_t (\<lambda>x. fmul x x) t) d True) (\<lambda>squared_norm.
     bindE (binop fdiv squared_norm (map_t (fadd (Some 1)) squared_norm)) (\<lambda>scale.
     bindE (binop fmul scale t) (\<lambda>scaled.
     binop fdiv scaled (map_t fsqrt squared_norm))))"

definition vec :: "real list \<Rightarrow> tensor" where
  \<comment> \<open>The one-dimensional tensor holding the given numbers.\<close>
  "vec xs = mk [length xs] (\<lambda>idx. Some (xs ! hd idx))"

text \<open>Auxiliary notions for the proofs: the value \<open>squash\<close> computes at one entry.\<close>

definition squash_val :: "val \<Rightarrow> val \<Rightarrow> val" where
  \<comment> \<open>From the squared norm of a vector and one of its entries.\<close>
  "squash_val sq x = fdiv (fmul (fdiv sq (fadd (Some 1) sq)) x) (fsqrt sq)"

definition sqnorm_at :: "tensor \<Rightarrow> nat \<Rightarrow> nat list \<Rightarrow> val" where
  \<comment> \<open>The squared norm along dimension \<open>j\<close> of the vector through index \<open>idx\<close>.\<close>
  "sqnorm_at t j idx = fsum (map (\<lambda>k. fmul (elem t (idx[j := k])) (elem t (idx[j := k]))) [0..<shape t ! j])"


section \<open>Flat storage\<close>

fun ravel :: "nat list \<Rightarrow> nat list \<Rightarrow> nat" where
  \<comment> \<open>The position of an index in row-major order.\<close>
  "ravel (n # s) (i # idx) = i * prod_list s + ravel s idx"
| "ravel _ _ = 0"

fun unravel :: "nat list \<Rightarrow> nat \<Rightarrow> nat list" where
  "unravel [] k = []"
| "unravel (n # s) k = (k div prod_list s) # unravel s (k mod prod_list s)"

definition numel :: "tensor \<Rightarrow> nat" where
  "numel t = prod_list (shape t)"

definition flat :: "tensor \<Rightarrow> val list" where
  \<comment> \<open>The entries in row-major order.\<close>
  "flat t = map (\<lambda>k. elem t (unravel (shape t) k)) [0..<numel t]"

definition of_flat :: "nat list \<Rightarrow> real list \<Rightarrow> tensor" where
  \<comment> \<open>The tensor of the given shape over the given row-major entries.\<close>
  "of_flat s xs = mk s (\<lambda>idx. Some (xs ! ravel s idx))"

definition mean_all :: "tensor \<Rightarrow> val" where
  \<comment> \<open>\<^verbatim>\<open>t.mean()\<close>: the mean of no entries is 0 / 0.\<close>
  "mean_all t = fdiv (fsum (flat t)) (Some (real (numel t)))"

section \<open>CapsuleLoss\<close>

definition fclamp_min :: "real \<Rightarrow> val \<Rightarrow> val" where
  \<comment> \<open>\<^verbatim>\<open>torch.clamp(x, min=m)\<close> on one entry.\<close>
  "fclamp_min m a = map_option (max m) a"

definition fpow2 :: "val \<Rightarrow> val" where
  "fpow2 a = fmul a a"

definition mse_loss :: "tensor \<Rightarrow> tensor \<Rightarrow> error + val" where
  \<comment> \<open>\<^verbatim>\<open>nn.MSELoss(size_average=True)\<close>: the two tensors need the same number of entries
      and are compared in storage order, whatever their shapes.\<close>
  "mse_loss input target =
     (if numel input \<noteq> numel target then Inl ShapeError
      else Inr (fdiv (fsum (map2 (\<lambda>a b. fpow2 (fsub a b)) (flat input) (flat target)))
                  (Some (real (numel input)))))"

definition margin_terms :: "tensor \<Rightarrow> tensor \<Rightarrow> error + tensor" where
  \<comment> \<open>Lines 109 to 112: the margin loss of every batch element and class.\<close>
  "margin_terms labels classes =
     (let left = map_t fpow2 (map_t (fclamp_min 0) (map_t (\<lambda>x. fsub (Some 0.9) x) classes));
          right = map_t fpow2 (map_t (fclamp_min 0) (map_t (\<lambda>x. fsub x (Some 0.1)) classes))
      in bindE (binop fmul labels left) (\<lambda>l.
         bindE (binop fmul (map_t (fmul (Some 0.5)) (map_t (\<lambda>x. fsub (Some 1) x) labels)) right) (\<lambda>r.
         binop fadd l r)))"

definition margin_loss :: "tensor \<Rightarrow> tensor \<Rightarrow> error + val" where
  \<comment> \<open>Line 113.\<close>
  "margin_loss labels classes =
     bindE (margin_terms labels classes) (\<lambda>m.
     bindE (sum_dim m 1 False) (\<lambda>s. Inr (mean_all s)))"

definition CapsuleLoss_forward :: "tensor \<Rightarrow> tensor \<Rightarrow> tensor \<Rightarrow> tensor \<Rightarrow> error + val" where
  "CapsuleLoss_forward images labels classes reconstructions =
     bindE (margin_loss labels classes) (\<lambda>margin.
     bindE (mse_loss reconstructions images) (\<lambda>reconstruction_loss.
     Inr (fadd margin (fmul (Some 0.0005) reconstruction_loss))))"

text \<open>The loss as the specification words it, over real matrices and flat real lists.\<close>

definition spec_margin_term :: "real \<Rightarrow> real \<Rightarrow> real" where
  "spec_margin_term l a = l * (max 0 (0.9 - a))\<^sup>2 + 0.5 * (1 - l) * (max 0 (a - 0.1))\<^sup>2"

definition spec_margin_loss :: "nat \<Rightarrow> nat \<Rightarrow> (nat \<Rightarrow> nat \<Rightarrow> real) \<Rightarrow> (nat \<Rightarrow> nat \<Rightarrow> real) \<Rightarrow> real" where
  \<comment> \<open>Summed over the classes, averaged over the batch.\<close>
  "spec_margin_loss B C lab act =
     (\<Sum>b\<leftarrow>[0..<B]. \<Sum>c\<leftarrow>[0..<C]. spec_margin_term (lab b c) (act b c)) / real B"

definition spec_mse :: "real list \<Rightarrow> real list \<Rightarrow> real" where
  "spec_mse xs ys = (\<Sum>(x, y)\<leftarrow>zip xs ys. (x - y)\<^sup>2) / real (length xs)"

definition mat :: "nat \<Rightarrow> nat \<Rightarrow> (nat \<Rightarrow> nat \<Rightarrow> real) \<Rightarrow> tensor" where
  \<comment> \<open>The matrix with the given rows, columns and entries.\<close>
  "mat B C f = mk [B, C] (\<lambda>idx. Some (f (idx ! 0) (idx ! 1)))"

definition rows :: "real list list \<Rightarrow> tensor" where
  \<comment> \<open>The matrix written out row by row.\<close>
  "rows xs = mat (length xs) (case xs of [] \<Rightarrow> 0 | r # _ \<Rightarrow> length r) (\<lambda>b c. xs ! b ! c)"

section \<open>More tensor operations of the library\<close>

definition transpose_t :: "tensor \<Rightarrow> int \<Rightarrow> int \<Rightarrow> error + tensor" where
  \<comment> \<open>\<^verbatim>\<open>t.transpose(d0, d1)\<close>\<close>
  "transpose_t t d0 d1 =
     (case norm_dim (length (shape t)) d0 of None \<Rightarrow> Inl DimError | Some i \<Rightarrow>
     (case norm_dim (length (shape t)) d1 of None \<Rightarrow> Inl DimError | Some j \<Rightarrow>
        Inr (mk ((shape t)[i := shape t ! j, j := shape t ! i])
               (\<lambda>idx. elem t (idx[i := idx ! j, j := idx ! i])))))"

definition infer_size :: "nat \<Rightarrow> int list \<Rightarrow> nat list option" where
  \<comment> \<open>The sizes a \<^verbatim>\<open>view\<close> asks for, with at most one \<^verbatim>\<open>-1\<close> to be inferred from the
      number of entries; an inferred size next to a size 0 is ambiguous and refused.\<close>
  "infer_size n sizes =
     (let known = prod_list (map nat (filter (\<lambda>z. z \<noteq> - 1) sizes))
      in if (\<exists>z \<in> set sizes. z < - 1) \<or> 1 < length (filter (\<lambda>z. z = - 1) sizes) then None
         else if - 1 \<in> set sizes
         then (if known = 0 \<or> n mod known \<noteq> 0 then None
               else Some (map (\<lambda>z. if z = - 1 then n div known else nat z) sizes))
         else Some (map nat sizes))"

definition view :: "tensor \<Rightarrow> int list \<Rightarrow> error + tensor" where
  \<comment> \<open>\<^verbatim>\<open>t.view(*sizes)\<close>: the same entries in storage order under another shape.\<close>
  "view t sizes = (case infer_size (numel t) sizes of
       None \<Rightarrow> Inl ShapeError
     | Some s \<Rightarrow> if prod_list s \<noteq> numel t then Inl ShapeError
         else Inr (mk s (\<lambda>idx. elem t (unravel (shape t) (ravel s idx)))))"

definition softmax_along :: "tensor \<Rightarrow> nat \<Rightarrow> tensor" where
  "softmax_along t j = mk (shape t)
     (\<lambda>idx. fdiv (fexp (elem t idx)) (fsum (map (\<lambda>k. fexp (elem t (idx[j := k]))) [0..<shape t ! j])))"

definition F_softmax :: "tensor \<Rightarrow> tensor" where
  \<comment> \<open>\<^verbatim>\<open>F.softmax(t)\<close> with no dimension given: dimension 0 for a tensor of one or three
      dimensions, dimension 1 otherwise.\<close>
  "F_softmax t = softmax_along t (if length (shape t) = 1 \<or> length (shape t) = 3 then 0 else 1)"

datatype ix = Slice | NewAxis | At int

fun index_shape :: "ix list \<Rightarrow> nat list \<Rightarrow> nat list option" where
  "index_shape [] s = Some s"
| "index_shape (NewAxis # is) s = map_option ((#) 1) (index_shape is s)"
| "index_shape (Slice # is) [] = None"
| "index_shape (Slice # is) (n # s) = map_option ((#) n) (index_shape is s)"
| "index_shape (At k # is) [] = None"
| "index_shape (At k # is) (n # s) = (if - int n \<le> k \<and> k < int n then index_shape is s else None)"

fun index_source :: "ix list \<Rightarrow> nat list \<Rightarrow> nat list \<Rightarrow> nat list" where
  \<comment> \<open>The index of the indexed tensor that an index of the result reads.\<close>
  "index_source [] s idx = idx"
| "index_source (NewAxis # is) s idx = index_source is s (tl idx)"
| "index_source (Slice # is) s idx = hd idx # index_source is (tl s) (tl idx)"
| "index_source (At k # is) s idx = nat (if k < 0 then k + int (hd s) else k) # index_source is (tl s) idx"

definition getitem :: "tensor \<Rightarrow> ix list \<Rightarrow> error + tensor" where
  \<comment> \<open>\<^verbatim>\<open>t[i0, i1, ...]\<close> with full slices, \<^verbatim>\<open>None\<close> and integers.\<close>
  "getitem t is = (case index_shape is (shape t) of
       None \<Rightarrow> Inl IndexError
     | Some s \<Rightarrow> Inr (mk s (\<lambda>idx. elem t (index_source is (shape t) idx))))"

definition matmul :: "tensor \<Rightarrow> tensor \<Rightarrow> error + tensor" where
  \<comment> \<open>\<^verbatim>\<open>a @ b\<close> for operands of at least two dimensions, as both are in this program:
      the matrices of the last two dimensions are multiplied, the dimensions before them
      are broadcast.\<close>
  "matmul a b =
     (let sa = shape a; sb = shape b; na = length sa; nb = length sb
      in if na < 2 \<or> nb < 2 then Inl ShapeError
         else if sa ! (na - 1) \<noteq> sb ! (nb - 2) then Inl ShapeError
         else (case broadcast_shapes (take (na - 2) sa) (take (nb - 2) sb) of
             None \<Rightarrow> Inl ShapeError
           | Some bs \<Rightarrow> Inr (mk (bs @ [sa ! (na - 2), sb ! (nb - 1)])
               (\<lambda>idx. let lead = take (length bs) idx; r = idx ! length bs; c = idx ! Suc (length bs)
                 in fsum (map (\<lambda>k. fmul (elem a (bidx (take (na - 2) sa) lead @ [r, k]))
                                        (elem b (bidx (take (nb - 2) sb) lead @ [k, c])))
                            [0..<sa ! (na - 1)])))))"

section \<open>The module-level softmax\<close>

definition softmax :: "tensor \<Rightarrow> int \<Rightarrow> error + tensor" where
  "softmax input d =
     (let input_size = shape input
      in bindE (transpose_t input d (int (length input_size) - 1)) (\<lambda>trans_input.
         let trans_size = shape trans_input
         in bindE (view trans_input [- 1, int (last trans_size)]) (\<lambda>input_2d.
            let soft_max_2d = F_softmax input_2d
            in bindE (view soft_max_2d (map int trans_size)) (\<lambda>soft_max_nd.
               transpose_t soft_max_nd d (int (length input_size) - 1)))))"

section \<open>Convolution and concatenation\<close>

record conv2d =
  conv_weight :: tensor
  conv_bias :: tensor
  conv_stride :: nat

definition Conv2d_init :: "nat \<Rightarrow> nat \<Rightarrow> nat \<Rightarrow> nat \<Rightarrow> (nat list \<Rightarrow> real) \<Rightarrow> (nat list \<Rightarrow> real) \<Rightarrow> conv2d" where
  \<comment> \<open>\<^verbatim>\<open>nn.Conv2d(in_channels, out_channels, kernel_size, stride, padding=0)\<close>; the last two
      arguments are the values the weight and the bias are initialised with.\<close>
  "Conv2d_init in_channels out_channels kernel_size stride w b =
     \<lparr>conv_weight = mk [out_channels, in_channels, kernel_size, kernel_size] (\<lambda>idx. Some (w idx)),
      conv_bias = mk [out_channels] (\<lambda>idx. Some (b idx)),
      conv_stride = stride\<rparr>"

definition conv2d_forward :: "conv2d \<Rightarrow> tensor \<Rightarrow> error + tensor" where
  "conv2d_forward c x =
     (let sx = shape x; sw = shape (conv_weight c); st = conv_stride c
      in if length sx \<noteq> 4 \<or> length sw \<noteq> 4 \<or> shape (conv_bias c) \<noteq> [sw ! 0] \<or> sx ! 1 \<noteq> sw ! 1
            \<or> st = 0 \<or> sx ! 2 < sw ! 2 \<or> sx ! 3 < sw ! 3
         then Inl ShapeError
         else Inr (mk [sx ! 0, sw ! 0, (sx ! 2 - sw ! 2) div st + 1, (sx ! 3 - sw ! 3) div st + 1]
           (\<lambda>idx. fadd
              (fsum (map (\<lambda>c'. fsum (map (\<lambda>u. fsum (map (\<lambda>v.
                  fmul (elem x [idx ! 0, c', idx ! 2 * st + u, idx ! 3 * st + v])
                       (elem (conv_weight c) [idx ! 1, c', u, v]))
                [0..<sw ! 3])) [0..<sw ! 2])) [0..<sw ! 1]))
              (elem (conv_bias c) [idx ! 1]))))"

fun mapE :: "('a \<Rightarrow> error + 'b) \<Rightarrow> 'a list \<Rightarrow> error + 'b list" where
  "mapE f [] = Inr []"
| "mapE f (x # xs) = bindE (f x) (\<lambda>y. bindE (mapE f xs) (\<lambda>ys. Inr (y # ys)))"

fun cat_elem :: "tensor list \<Rightarrow> nat \<Rightarrow> nat list \<Rightarrow> val" where
  "cat_elem [] j idx = None"
| "cat_elem (t # ts) j idx =
     (if idx ! j < shape t ! j then elem t idx else cat_elem ts j (idx[j := idx ! j - shape t ! j]))"

definition cat :: "tensor list \<Rightarrow> int \<Rightarrow> error + tensor" where
  \<comment> \<open>\<^verbatim>\<open>torch.cat(ts, dim=d)\<close>\<close>
  "cat ts d = (case ts of [] \<Rightarrow> Inl ShapeError | t0 # rest \<Rightarrow>
     (case norm_dim (length (shape t0)) d of None \<Rightarrow> Inl DimError | Some j \<Rightarrow>
        if list_all (\<lambda>t. length (shape t) = length (shape t0) \<and> (shape t)[j := 0] = (shape t0)[j := 0]) rest
        then Inr (mk ((shape t0)[j := sum_list (map (\<lambda>t. shape t ! j) ts)]) (cat_elem ts j))
        else Inl ShapeError))"

section \<open>CapsuleLayer\<close>

record CapsuleLayer =
  num_route_nodes :: int
  num_iterations :: int
  num_capsules :: nat
  route_logits :: "tensor option"
  route_weights :: "tensor option"
  capsules :: "conv2d list option"

definition zeros :: "nat list \<Rightarrow> tensor" where
  "zeros s = mk s (\<lambda>idx. Some 0)"

definition CapsuleLayer_parameters :: "CapsuleLayer \<Rightarrow> tensor list" where
  \<comment> \<open>\<^verbatim>\<open>layer.parameters()\<close>: what the optimizer updates. The attributes made with
      \<^verbatim>\<open>nn.Parameter\<close> come first, in the order of their assignment, then the parameters of
      the convolutions.\<close>
  "CapsuleLayer_parameters l =
     (case route_logits l of None \<Rightarrow> [] | Some t \<Rightarrow> [t]) @
     (case route_weights l of None \<Rightarrow> [] | Some t \<Rightarrow> [t]) @
     (case capsules l of None \<Rightarrow> [] | Some cs \<Rightarrow> concat (map (\<lambda>c. [conv_weight c, conv_bias c]) cs))"

definition CapsuleLayer_init ::
  "nat \<Rightarrow> int \<Rightarrow> nat \<Rightarrow> nat \<Rightarrow> nat \<Rightarrow> nat \<Rightarrow> int \<Rightarrow> (nat list \<Rightarrow> real) \<Rightarrow> (nat \<Rightarrow> nat list \<Rightarrow> real) \<Rightarrow> (nat \<Rightarrow> nat list \<Rightarrow> real)
     \<Rightarrow> error + CapsuleLayer" where
  \<comment> \<open>The last three arguments are the random initial values: of the route weights
      (\<^verbatim>\<open>torch.randn\<close>) and of the weight and bias of each convolution.\<close>
  "CapsuleLayer_init n_capsules n_route_nodes in_channels out_channels kernel_size stride n_iterations
       randn conv_w conv_b =
     (if n_route_nodes \<noteq> - 1
      then (if n_route_nodes < 0 then Inl ShapeError
            else Inr \<lparr>num_route_nodes = n_route_nodes, num_iterations = n_iterations, num_capsules = n_capsules,
                   route_logits = Some (zeros [n_capsules, 1, nat n_route_nodes, 1, 1]),
                   route_weights = Some (mk [n_capsules, nat n_route_nodes, in_channels, out_channels]
                                           (\<lambda>idx. Some (randn idx))),
                   capsules = None\<rparr>)
      else Inr \<lparr>num_route_nodes = n_route_nodes, num_iterations = n_iterations, num_capsules = n_capsules,
             route_logits = None, route_weights = None,
             capsules = Some (map (\<lambda>i. Conv2d_init in_channels out_channels kernel_size stride (conv_w i) (conv_b i))
                                [0..<n_capsules])\<rparr>)"

definition get_attr :: "'a option \<Rightarrow> error + 'a" where
  "get_attr a = (case a of None \<Rightarrow> Inl AttributeError | Some v \<Rightarrow> Inr v)"

definition routing_step :: "tensor \<Rightarrow> int \<Rightarrow> int \<Rightarrow> tensor \<Rightarrow> error + tensor \<times> tensor" where
  \<comment> \<open>The body of the loop, lines 56 to 61: from the logits to the new logits and the outputs.\<close>
  "routing_step priors n_iterations i logits =
     bindE (softmax logits 2) (\<lambda>probs.
     bindE (binop fmul probs priors) (\<lambda>weighted.
     bindE (sum_dim weighted 2 True) (\<lambda>summed.
     bindE (squash summed (- 1)) (\<lambda>outputs.
       if i \<noteq> n_iterations - 1
       then bindE (binop fmul priors outputs) (\<lambda>agree.
            bindE (sum_dim agree (- 1) True) (\<lambda>delta_logits.
            bindE (binop fadd logits delta_logits) (\<lambda>logits'.
            Inr (logits', outputs))))
       else Inr (logits, outputs)))))"

fun routing_loop :: "tensor \<Rightarrow> int \<Rightarrow> int list \<Rightarrow> tensor \<times> tensor option \<Rightarrow> error + tensor \<times> tensor option" where
  \<comment> \<open>The loop over the values of \<^verbatim>\<open>i\<close>; the state is \<^verbatim>\<open>logits\<close> and \<^verbatim>\<open>outputs\<close>, the latter
      unbound before the first pass.\<close>
  "routing_loop priors n_iterations [] st = Inr st"
| "routing_loop priors n_iterations (i # is) st =
     bindE (routing_step priors n_iterations i (fst st)) (\<lambda>r.
     routing_loop priors n_iterations is (fst r, Some (snd r)))"

definition py_range :: "int \<Rightarrow> int list" where
  "py_range n = map int [0..<nat n]"

definition routing :: "tensor \<Rightarrow> tensor \<Rightarrow> int \<Rightarrow> error + tensor" where
  \<comment> \<open>Lines 54 to 61 and the return of line 67.\<close>
  "routing priors logits n_iterations =
     bindE (routing_loop priors n_iterations (py_range n_iterations) (logits, None)) (\<lambda>st.
     case snd st of None \<Rightarrow> Inl UnboundLocalError | Some outputs \<Rightarrow> Inr outputs)"

definition size0 :: "tensor \<Rightarrow> error + nat" where
  \<comment> \<open>\<^verbatim>\<open>x.size(0)\<close>\<close>
  "size0 x = (case shape x of [] \<Rightarrow> Inl IndexError | n # _ \<Rightarrow> Inr n)"

definition CapsuleLayer_forward :: "CapsuleLayer \<Rightarrow> tensor \<Rightarrow> error + tensor" where
  "CapsuleLayer_forward l x =
     (if num_route_nodes l \<noteq> - 1
      then bindE (getitem x [NewAxis, Slice, Slice, NewAxis, Slice]) (\<lambda>xi.
           bindE (get_attr (route_weights l)) (\<lambda>w.
           bindE (getitem w [Slice, NewAxis, Slice, Slice, Slice]) (\<lambda>wi.
           bindE (matmul xi wi) (\<lambda>priors.
           bindE (get_attr (route_logits l)) (\<lambda>logits.
           routing priors logits (num_iterations l))))))
      else bindE (get_attr (capsules l)) (\<lambda>cs.
           bindE (mapE (\<lambda>capsule.
                    bindE (conv2d_forward capsule x) (\<lambda>y.
                    bindE (size0 x) (\<lambda>b. view y [int b, - 1, 1]))) cs) (\<lambda>outputs.
           bindE (cat outputs (- 1)) (\<lambda>outputs'.
           squash outputs' (- 1)))))"

text \<open>
  Routing as the specification words it, over votes \<open>V m b n d\<close> and logits \<open>lg m b n\<close>
  for output capsule \<open>m\<close>, batch element \<open>b\<close>, route node \<open>n\<close> and output dimension \<open>d\<close>.
\<close>

definition spec_coupling :: "nat \<Rightarrow> (nat \<Rightarrow> nat \<Rightarrow> nat \<Rightarrow> val) \<Rightarrow> nat \<Rightarrow> nat \<Rightarrow> nat \<Rightarrow> val" where
  \<comment> \<open>Softmax of the logits along the route nodes.\<close>
  "spec_coupling N lg m b n = fdiv (fexp (lg m b n)) (fsum (map (\<lambda>k. fexp (lg m b k)) [0..<N]))"

definition spec_squash :: "nat \<Rightarrow> (nat \<Rightarrow> val) \<Rightarrow> nat \<Rightarrow> val" where
  \<comment> \<open>The formula of \<open>squash\<close> on a vector of \<open>D\<close> entries.\<close>
  "spec_squash D u d = squash_val (fsum (map (\<lambda>k. fmul (u k) (u k)) [0..<D])) (u d)"

definition spec_output ::
  "nat \<Rightarrow> nat \<Rightarrow> (nat \<Rightarrow> nat \<Rightarrow> nat \<Rightarrow> nat \<Rightarrow> val) \<Rightarrow> (nat \<Rightarrow> nat \<Rightarrow> nat \<Rightarrow> val) \<Rightarrow> nat \<Rightarrow> nat \<Rightarrow> nat \<Rightarrow> val" where
  \<comment> \<open>The squash of the coupling-weighted sum of the votes over the route nodes.\<close>
  "spec_output N D V lg m b d =
     spec_squash D (\<lambda>d'. fsum (map (\<lambda>n. fmul (spec_coupling N lg m b n) (V m b n d')) [0..<N])) d"

definition spec_update ::
  "nat \<Rightarrow> nat \<Rightarrow> (nat \<Rightarrow> nat \<Rightarrow> nat \<Rightarrow> nat \<Rightarrow> val) \<Rightarrow> (nat \<Rightarrow> nat \<Rightarrow> nat \<Rightarrow> val) \<Rightarrow> nat \<Rightarrow> nat \<Rightarrow> nat \<Rightarrow> val" where
  \<comment> \<open>The logits plus the dot product of each vote with the current output.\<close>
  "spec_update N D V lg m b n =
     fadd (lg m b n) (fsum (map (\<lambda>d. fmul (V m b n d) (spec_output N D V lg m b d)) [0..<D]))"

fun spec_routing ::
  "nat \<Rightarrow> nat \<Rightarrow> (nat \<Rightarrow> nat \<Rightarrow> nat \<Rightarrow> nat \<Rightarrow> val) \<Rightarrow> (nat \<Rightarrow> nat \<Rightarrow> nat \<Rightarrow> val) \<Rightarrow> nat \<Rightarrow> nat \<Rightarrow> nat \<Rightarrow> nat \<Rightarrow> val" where
  \<comment> \<open>\<open>spec_routing N D V lg t\<close>: the output after \<open>t + 1\<close> iterations, the logits updated
      on all but the last.\<close>
  "spec_routing N D V lg 0 = spec_output N D V lg"
| "spec_routing N D V lg (Suc t) = spec_routing N D V (spec_update N D V lg) t"

definition votes_t :: "nat \<Rightarrow> nat \<Rightarrow> nat \<Rightarrow> nat \<Rightarrow> (nat \<Rightarrow> nat \<Rightarrow> nat \<Rightarrow> nat \<Rightarrow> val) \<Rightarrow> tensor" where
  \<comment> \<open>The tensor of votes, of shape \<open>[M, B, N, 1, D]\<close>.\<close>
  "votes_t M B N D V = mk [M, B, N, 1, D] (\<lambda>idx. V (idx ! 0) (idx ! 1) (idx ! 2) (idx ! 4))"

definition logits_t :: "nat \<Rightarrow> nat \<Rightarrow> nat \<Rightarrow> (nat \<Rightarrow> nat \<Rightarrow> nat \<Rightarrow> val) \<Rightarrow> tensor" where
  \<comment> \<open>The tensor of logits, of shape \<open>[M, B', N, 1, 1]\<close>.\<close>
  "logits_t M B' N lg = mk [M, B', N, 1, 1] (\<lambda>idx. lg (idx ! 0) (idx ! 1) (idx ! 2))"

definition outputs_t :: "nat \<Rightarrow> nat \<Rightarrow> nat \<Rightarrow> (nat \<Rightarrow> nat \<Rightarrow> nat \<Rightarrow> val) \<Rightarrow> tensor" where
  \<comment> \<open>The tensor of output capsule vectors, of shape \<open>[M, B, 1, 1, D]\<close>.\<close>
  "outputs_t M B D out = mk [M, B, 1, 1, D] (\<lambda>idx. out (idx ! 0) (idx ! 1) (idx ! 4))"

definition batch_indep :: "(nat \<Rightarrow> nat \<Rightarrow> nat \<Rightarrow> val) \<Rightarrow> bool" where
  \<comment> \<open>Logits that are the same for every batch element, as those of one shared row are.\<close>
  "batch_indep lg = (\<forall>m b n. lg m b n = lg m 0 n)"

definition input_t :: "nat \<Rightarrow> nat \<Rightarrow> nat \<Rightarrow> (nat \<Rightarrow> nat \<Rightarrow> nat \<Rightarrow> val) \<Rightarrow> tensor" where
  \<comment> \<open>The input capsules, of shape \<open>[B, N, D_in]\<close>.\<close>
  "input_t B N Din X = mk [B, N, Din] (\<lambda>idx. X (idx ! 0) (idx ! 1) (idx ! 2))"

definition weights_t :: "nat \<Rightarrow> nat \<Rightarrow> nat \<Rightarrow> nat \<Rightarrow> (nat \<Rightarrow> nat \<Rightarrow> nat \<Rightarrow> nat \<Rightarrow> val) \<Rightarrow> tensor" where
  \<comment> \<open>The route weights, of shape \<open>[M, N, D_in, D_out]\<close>.\<close>
  "weights_t M N Din Dout W = mk [M, N, Din, Dout] (\<lambda>idx. W (idx ! 0) (idx ! 1) (idx ! 2) (idx ! 3))"

definition spec_votes ::
  "nat \<Rightarrow> (nat \<Rightarrow> nat \<Rightarrow> nat \<Rightarrow> val) \<Rightarrow> (nat \<Rightarrow> nat \<Rightarrow> nat \<Rightarrow> nat \<Rightarrow> val) \<Rightarrow> nat \<Rightarrow> nat \<Rightarrow> nat \<Rightarrow> nat \<Rightarrow> val" where
  \<comment> \<open>The vote of route node \<open>n\<close> for output capsule \<open>m\<close>: its input vector times the
      transform of the pair.\<close>
  "spec_votes Din X W m b n d = fsum (map (\<lambda>k. fmul (X b n k) (W m n k d)) [0..<Din])"

definition spec_uniform_output ::
  "nat \<Rightarrow> nat \<Rightarrow> (nat \<Rightarrow> nat \<Rightarrow> nat \<Rightarrow> nat \<Rightarrow> val) \<Rightarrow> nat \<Rightarrow> nat \<Rightarrow> nat \<Rightarrow> val" where
  \<comment> \<open>The squash of the sum of the votes, each weighted by \<open>1 / N\<close>.\<close>
  "spec_uniform_output N D V m b d =
     spec_squash D (\<lambda>d'. fsum (map (\<lambda>n. fmul (Some (1 / real N)) (V m b n d')) [0..<N])) d"

section \<open>Properties\<close>


lemma valid_index_iff:
  "valid_index s idx \<longleftrightarrow> length idx = length s \<and> (\<forall>i<length s. idx ! i < s ! i)"
  by (auto simp: valid_index_def list_all2_conv_all_nth)

lemma nth_upd: "(xs[i := x]) ! j = (if i = j \<and> i < length xs then x else xs ! j)"
  by (cases "i < length xs") (auto simp: nth_list_update list_update_beyond)

lemma shape_mk [simp]: "shape (mk s f) = s" by (simp add: mk_def)
lemma elem_mk: "elem (mk s f) idx = (if valid_index s idx then f idx else None)" by (simp add: mk_def)
lemma elem_mk_valid [simp]: "valid_index s idx \<Longrightarrow> elem (mk s f) idx = f idx" by (simp add: mk_def)

lemma mk_cong: "(\<And>idx. valid_index s idx \<Longrightarrow> f idx = g idx) \<Longrightarrow> mk s f = mk s g"
  by (auto simp: mk_def fun_eq_iff)

lemma bshape_rev_same: "bshape_rev s s = Some s"
  by (induction s) auto

lemma broadcast_shapes_same [simp]: "broadcast_shapes s s = Some s"
  by (simp add: broadcast_shapes_def bshape_rev_same)

lemma bshape_rev_len: "length a = length b \<Longrightarrow> \<forall>i<length a. a ! i = b ! i \<or> a ! i = 1 \<Longrightarrow> bshape_rev a b = Some b"
proof (induction a b rule: list_induct2)
  case Nil then show ?case by simp
next
  case (Cons x xs y ys)
  have "\<forall>i<length xs. xs ! i = ys ! i \<or> xs ! i = 1" using Cons.prems by (metis Suc_less_eq length_Cons nth_Cons_Suc)
  moreover have "x = y \<or> x = 1" using Cons.prems by (metis length_Cons nth_Cons_0 zero_less_Suc)
  ultimately show ?case using Cons.IH by auto
qed

lemma broadcast_shapes_stretch:
  assumes "length a = length b" "\<forall>i<length a. a ! i = b ! i \<or> a ! i = 1"
  shows "broadcast_shapes a b = Some b"
proof -
  have "bshape_rev (rev a) (rev b) = Some (rev b)"
    using assms by (intro bshape_rev_len) (auto simp: rev_nth)
  then show ?thesis by (simp add: broadcast_shapes_def)
qed

lemma bshape_rev_len2: "length a = length b \<Longrightarrow> \<forall>i<length a. a ! i = b ! i \<or> b ! i = 1 \<Longrightarrow> bshape_rev a b = Some a"
proof (induction a b rule: list_induct2)
  case Nil then show ?case by simp
next
  case (Cons x xs y ys)
  have "\<forall>i<length xs. xs ! i = ys ! i \<or> ys ! i = 1" using Cons.prems by (metis Suc_less_eq length_Cons nth_Cons_Suc)
  moreover have "x = y \<or> y = 1" using Cons.prems by (metis length_Cons nth_Cons_0 zero_less_Suc)
  ultimately show ?case using Cons.IH by auto
qed

lemma broadcast_shapes_stretch2:
  assumes "length a = length b" "\<forall>i<length a. a ! i = b ! i \<or> b ! i = 1"
  shows "broadcast_shapes a b = Some a"
proof -
  have "bshape_rev (rev a) (rev b) = Some (rev a)"
    using assms by (intro bshape_rev_len2) (auto simp: rev_nth)
  then show ?thesis by (simp add: broadcast_shapes_def)
qed

lemma bidx_stretch:
  assumes "valid_index s idx" "length a = length s" 
  shows "bidx a idx = map (\<lambda>i. if a ! i = 1 then 0 else idx ! i) [0..<length s]"
  using assms by (auto simp: bidx_def valid_index_iff intro!: nth_equalityI)

lemma bidx_same: "valid_index s idx \<Longrightarrow> bidx s idx = idx"
  by (auto simp: bidx_def valid_index_iff intro!: nth_equalityI)

lemma bidx_keepdim: "valid_index s idx \<Longrightarrow> j < length s \<Longrightarrow> bidx (s[j := 1]) idx = idx[j := 0]"
  by (auto simp: bidx_def valid_index_iff nth_list_update intro!: nth_equalityI)

lemma valid_index_update: "valid_index s idx \<Longrightarrow> k < s ! j \<Longrightarrow> valid_index s (idx[j := k])"
  unfolding valid_index_iff by (simp add: nth_upd)

lemma valid_index_keepdim: "valid_index s idx \<Longrightarrow> valid_index (s[j := 1]) (idx[j := 0])"
  unfolding valid_index_iff by (simp add: nth_upd)

lemma valid_index_keepdim_update: "valid_index (s[j := 1]) idx \<Longrightarrow> k < s ! j \<Longrightarrow> valid_index s (idx[j := k])"
  unfolding valid_index_iff
proof (intro conjI allI impI)
  fix i assume a: "length idx = length (s[j := 1]) \<and> (\<forall>i<length (s[j := 1]). idx ! i < s[j := 1] ! i)" "k < s ! j" "i < length s"
  then have "idx ! i < s[j := 1] ! i" by simp
  then show "idx[j := k] ! i < s ! i" using a by (cases "i = j") (simp_all add: nth_upd)
qed simp

lemma bindE_Inr [simp]: "bindE (Inr v) f = f v" by (simp add: bindE_def)
lemma bindE_Inl [simp]: "bindE (Inl e) f = Inl e" by (simp add: bindE_def)

lemma binop_Inr:
  "broadcast_shapes (shape a) (shape b) = Some s \<Longrightarrow>
   binop f a b = Inr (mk s (\<lambda>idx. f (elem a (bidx (shape a) idx)) (elem b (bidx (shape b) idx))))"
  by (simp add: binop_def)

lemma squash_eq:
  assumes "norm_dim (length (shape t)) d = Some j"
  shows "squash t d = Inr (mk (shape t) (\<lambda>idx. squash_val (sqnorm_at t j idx) (elem t idx)))"
proof -
  let ?s = "shape t"
  let ?k = "?s[j := 1]"
  have j: "j < length ?s" using assms by (auto simp: norm_dim_def split: if_splits)
  define sq where "sq = mk ?k (\<lambda>idx. fsum (map (\<lambda>k. elem (map_t (\<lambda>x. fmul x x) t) (idx[j := k])) [0..<?s ! j]))"
  have s1: "sum_dim (map_t (\<lambda>x. fmul x x) t) d True = Inr sq"
    using assms by (simp add: sum_dim_def sq_def map_t_def)
  have shsq: "shape sq = ?k" by (simp add: sq_def)
  have vk: "valid_index ?k (idx[j := 0])" if "valid_index ?s idx" for idx
    using that by (rule valid_index_keepdim)
  have sqv: "elem sq (idx[j := 0]) = sqnorm_at t j idx" if "valid_index ?s idx" for idx
  proof -
    have "elem (map_t (\<lambda>x. fmul x x) t) (idx[j := k]) = fmul (elem t (idx[j := k])) (elem t (idx[j := k]))"
      if "k < ?s ! j" for k
      using that \<open>valid_index ?s idx\<close> by (simp add: map_t_def valid_index_update)
    then have meq: "map (\<lambda>k. elem (map_t (\<lambda>x. fmul x x) t) (idx[j := k])) [0..<?s ! j]
        = map (\<lambda>k. fmul (elem t (idx[j := k])) (elem t (idx[j := k]))) [0..<?s ! j]"
      by simp
    have "elem sq (idx[j := 0]) = fsum (map (\<lambda>k. elem (map_t (\<lambda>x. fmul x x) t) (idx[j := 0, j := k])) [0..<?s ! j])"
      unfolding sq_def using vk[OF that] by (rule elem_mk_valid)
    then show ?thesis unfolding sqnorm_at_def meq[symmetric] by simp
  qed
  define one where "one = map_t (fadd (Some 1)) sq"
  have shone: "shape one = ?k" by (simp add: one_def map_t_def shsq)
  have onev: "elem one (idx[j := 0]) = fadd (Some 1) (sqnorm_at t j idx)" if "valid_index ?s idx" for idx
    unfolding one_def map_t_def shsq using vk[OF that] sqv[OF that] by simp
  define scale where "scale = mk ?k (\<lambda>idx. fdiv (elem sq (bidx ?k idx)) (elem one (bidx ?k idx)))"
  have s2: "binop fdiv sq one = Inr scale"
    unfolding scale_def by (subst binop_Inr[where s = ?k]) (simp_all add: shsq shone)
  have scalev: "elem scale (idx[j := 0]) = fdiv (sqnorm_at t j idx) (fadd (Some 1) (sqnorm_at t j idx))"
    if "valid_index ?s idx" for idx
    unfolding scale_def using vk[OF that] sqv[OF that] onev[OF that] by (simp add: bidx_same)
  define scaled where "scaled = mk ?s (\<lambda>idx. fmul (elem scale (bidx ?k idx)) (elem t (bidx ?s idx)))"
  have b2: "broadcast_shapes ?k ?s = Some ?s"
    by (rule broadcast_shapes_stretch) (auto simp: nth_upd)
  have b3: "broadcast_shapes ?s ?k = Some ?s"
    by (rule broadcast_shapes_stretch2) (auto simp: nth_upd)
  have s3: "binop fmul scale t = Inr scaled"
    unfolding scaled_def by (subst binop_Inr[where s = ?s]) (simp_all add: scale_def b2[simplified])
  define rt where "rt = map_t fsqrt sq"
  have shrt: "shape rt = ?k" by (simp add: rt_def map_t_def shsq)
  have rtv: "elem rt (idx[j := 0]) = fsqrt (sqnorm_at t j idx)" if "valid_index ?s idx" for idx
    unfolding rt_def map_t_def shsq using vk[OF that] sqv[OF that] by simp
  have s4: "binop fdiv scaled rt = Inr (mk ?s (\<lambda>idx. fdiv (elem scaled (bidx ?s idx)) (elem rt (bidx ?k idx))))"
    by (subst binop_Inr[where s = ?s]) (simp_all add: scaled_def shrt b3[simplified])
  have fin: "mk ?s (\<lambda>idx. fdiv (elem scaled (bidx ?s idx)) (elem rt (bidx ?k idx)))
     = mk ?s (\<lambda>idx. squash_val (sqnorm_at t j idx) (elem t idx))"
  proof (rule mk_cong)
    fix idx assume v: "valid_index ?s idx"
    have bk: "bidx ?k idx = idx[j := 0]" using v j by (rule bidx_keepdim)
    show "fdiv (elem scaled (bidx ?s idx)) (elem rt (bidx ?k idx)) = squash_val (sqnorm_at t j idx) (elem t idx)"
      unfolding bk bidx_same[OF v] rtv[OF v] scaled_def elem_mk_valid[OF v] bk scalev[OF v] squash_val_def ..
  qed
  show ?thesis
    unfolding squash_def one_def[symmetric] rt_def[symmetric] s1 bindE_Inr s2 s3 s4 fin ..
qed


lemma fsum_Some: "fsum (map (\<lambda>k. Some (g k)) xs) = Some (sum_list (map g xs))"
  by (induction xs) (simp_all add: fsum_def fadd_def lift2_def)

lemma vec_shape [simp]: "shape (vec v) = [length v]" by (simp add: vec_def)

lemma valid_index_single: "valid_index [n] idx \<longleftrightarrow> (\<exists>i<n. idx = [i])"
  by (cases idx) (auto simp: valid_index_def list_all2_Cons1)

lemma vec_elem [simp]: "i < length v \<Longrightarrow> elem (vec v) [i] = Some (v ! i)"
  by (simp add: vec_def valid_index_single)

lemma vec_eq_mk: "vec v = mk [length v] (\<lambda>idx. Some (v ! hd idx))" by (simp add: vec_def)

lemma sqnorm_at_vec:
  assumes "i < length v"
  shows "sqnorm_at (vec v) 0 [i] = Some (\<Sum>x\<leftarrow>v. x\<^sup>2)"
proof -
  have "fmul (elem (vec v) ([i][0 := k])) (elem (vec v) ([i][0 := k])) = Some ((v ! k)\<^sup>2)"
    if "k \<in> set [0..<length v]" for k
    using that by (simp add: fmul_def lift2_def power2_eq_square)
  then have "map (\<lambda>k. fmul (elem (vec v) ([i][0 := k])) (elem (vec v) ([i][0 := k]))) [0..<length v]
      = map (\<lambda>k. Some ((v ! k)\<^sup>2)) [0..<length v]"
    by (rule map_cong[OF refl])
  then have "sqnorm_at (vec v) 0 [i] = Some (sum_list (map (\<lambda>k. (v ! k)\<^sup>2) [0..<length v]))"
    unfolding sqnorm_at_def vec_shape nth_Cons_0 by (simp only: fsum_Some)
  also have "map (\<lambda>k. (v ! k)\<^sup>2) [0..<length v] = map (\<lambda>x. x\<^sup>2) (map (\<lambda>k. v ! k) [0..<length v])"
    by simp
  also have "map (\<lambda>k. v ! k) [0..<length v] = v" by (rule map_nth)
  finally show ?thesis .
qed

lemma norm_dim_last [simp]: "0 < n \<Longrightarrow> norm_dim n (- 1) = Some (n - 1)"
  by (auto simp: norm_dim_def)

lemma squash_vec:
  "squash (vec v) (- 1) = Inr (mk [length v] (\<lambda>idx. squash_val (Some (\<Sum>x\<leftarrow>v. x\<^sup>2)) (Some (v ! hd idx))))"
proof -
  have "norm_dim (length (shape (vec v))) (- 1) = Some 0" by simp
  then have "squash (vec v) (- 1) = Inr (mk (shape (vec v)) (\<lambda>idx. squash_val (sqnorm_at (vec v) 0 idx) (elem (vec v) idx)))"
    by (rule squash_eq)
  also have "mk (shape (vec v)) (\<lambda>idx. squash_val (sqnorm_at (vec v) 0 idx) (elem (vec v) idx))
     = mk [length v] (\<lambda>idx. squash_val (Some (\<Sum>x\<leftarrow>v. x\<^sup>2)) (Some (v ! hd idx)))"
    unfolding vec_shape by (rule mk_cong) (auto simp: valid_index_single sqnorm_at_vec)
  finally show ?thesis .
qed

lemma sum_squares_pos:
  fixes v :: "real list"
  assumes "\<exists>x\<in>set v. x \<noteq> 0"
  shows "0 < (\<Sum>x\<leftarrow>v. x\<^sup>2)"
  using assms
proof (induction v)
  case Nil then show ?case by simp
next
  case (Cons a v)
  have nn: "0 \<le> (\<Sum>x\<leftarrow>v. x\<^sup>2)" by (rule sum_list_nonneg) auto
  show ?case
  proof (cases "a = 0")
    case True
    then show ?thesis using Cons by auto
  next
    case False
    then have "0 < a\<^sup>2" by simp
    then have "0 < a\<^sup>2 + (\<Sum>x\<leftarrow>v. x\<^sup>2)" using nn by (rule add_pos_nonneg)
    then show ?thesis by simp
  qed
qed

text \<open>
  Claim C7. For a vector with a nonzero entry, \<open>squash\<close> returns a positive multiple
  of the vector, the norm of the result is the squared norm of the input divided by one
  plus that squared norm, and this is below 1.
\<close>

theorem squash_nonzero_vector:
  fixes v :: "real list"
  assumes "\<exists>x\<in>set v. x \<noteq> 0"
  shows "\<exists>c>0. squash (vec v) (- 1) = Inr (vec (map (\<lambda>x. c * x) v))
           \<and> sqrt (\<Sum>y\<leftarrow>map (\<lambda>x. c * x) v. y\<^sup>2) = (\<Sum>x\<leftarrow>v. x\<^sup>2) / (1 + (\<Sum>x\<leftarrow>v. x\<^sup>2))
           \<and> sqrt (\<Sum>y\<leftarrow>map (\<lambda>x. c * x) v. y\<^sup>2) < 1"
proof -
  define q where "q = (\<Sum>x\<leftarrow>v. x\<^sup>2)"
  define c where "c = sqrt q / (1 + q)"
  have q: "0 < q" unfolding q_def using assms by (rule sum_squares_pos)
  then have c: "0 < c" by (simp add: c_def)
  have ne: "v \<noteq> []" using assms by auto
  have val: "squash_val (Some q) (Some x) = Some (c * x)" for x
  proof -
    have "q / sqrt q = sqrt q" using q by (simp add: real_div_sqrt)
    then have "q / (1 + q) * x / sqrt q = c * x" unfolding c_def
      by (metis (no_types) divide_divide_eq_left mult.commute times_divide_eq_right times_divide_eq_left divide_divide_eq_left')
    then show ?thesis using q by (simp add: squash_val_def fdiv_def fmul_def fadd_def fsqrt_def lift2_def)
  qed
  have "squash (vec v) (- 1) = Inr (mk [length v] (\<lambda>idx. Some (c * (v ! hd idx))))"
    by (simp add: squash_vec val q_def[symmetric])
  also have "mk [length v] (\<lambda>idx. Some (c * (v ! hd idx))) = vec (map (\<lambda>x. c * x) v)"
    unfolding vec_eq_mk length_map by (rule mk_cong) (auto simp: valid_index_single)
  finally have r: "squash (vec v) (- 1) = Inr (vec (map (\<lambda>x. c * x) v))" .
  have "(\<Sum>y\<leftarrow>map (\<lambda>x. c * x) v. y\<^sup>2) = (\<Sum>x\<leftarrow>v. c\<^sup>2 * x\<^sup>2)"
    by (simp add: comp_def power_mult_distrib)
  also have "\<dots> = c\<^sup>2 * q" unfolding q_def by (rule sum_list_const_mult)
  finally have "sqrt (\<Sum>y\<leftarrow>map (\<lambda>x. c * x) v. y\<^sup>2) = c * sqrt q"
    using c by (simp add: real_sqrt_mult)
  also have "\<dots> = q / (1 + q)" using q by (simp add: c_def)
  finally have n: "sqrt (\<Sum>y\<leftarrow>map (\<lambda>x. c * x) v. y\<^sup>2) = q / (1 + q)" .
  have "q / (1 + q) < 1" using q by simp
  then have l: "sqrt (\<Sum>y\<leftarrow>map (\<lambda>x. c * x) v. y\<^sup>2) < 1" using n by simp
  show ?thesis
    by (rule exI[of _ c]) (use c r n l in \<open>simp only: q_def simp_thms\<close>)
qed

theorem squash_nonzero_vector_witness:
  "(\<exists>x\<in>set [3, 4 :: real]. x \<noteq> 0) \<and>
   (\<exists>c>0. squash (vec [3, 4]) (- 1) = Inr (vec (map (\<lambda>x. c * x) [3, 4]))
           \<and> sqrt (\<Sum>y\<leftarrow>map (\<lambda>x. c * x) [3, 4 :: real]. y\<^sup>2) = (\<Sum>x\<leftarrow>[3, 4 :: real]. x\<^sup>2) / (1 + (\<Sum>x\<leftarrow>[3, 4 :: real]. x\<^sup>2))
           \<and> sqrt (\<Sum>y\<leftarrow>map (\<lambda>x. c * x) [3, 4 :: real]. y\<^sup>2) < 1)"
proof -
  have h: "\<exists>x\<in>set [3, 4 :: real]. x \<noteq> 0" by simp
  show ?thesis using h squash_nonzero_vector [OF h] by simp
qed

text \<open>
  Claim C3. The division in \<open>squash\<close> has no guard: on the zero vector the squared
  norm is 0, the scaled vector is 0 and the quotient 0 / 0 is undefined in each entry.
\<close>

theorem squash_zero_vector_nan:
  "squash (vec [0, 0]) (- 1) = Inr (mk [2] (\<lambda>idx. None))"
proof -
  have "squash_val (Some 0) (Some x) = None" for x
    by (simp add: squash_val_def fdiv_def fmul_def fadd_def fsqrt_def lift2_def)
  then have "squash (vec [0, 0]) (- 1) = Inr (mk [length [0, 0 :: real]] (\<lambda>idx. None))"
    by (simp add: squash_vec del: length_Cons)
  then show ?thesis by (simp add: numeral_2_eq_2)
qed



lemma valid_index_Nil [simp]: "valid_index [] idx \<longleftrightarrow> idx = []"
  by (simp add: valid_index_def)

lemma valid_index_Cons: "valid_index (n # s) idx \<longleftrightarrow> (\<exists>i r. idx = i # r \<and> i < n \<and> valid_index s r)"
  by (auto simp: valid_index_def list_all2_Cons2)

lemma valid_index_Cons_Cons [simp]: "valid_index (n # s) (i # r) \<longleftrightarrow> i < n \<and> valid_index s r"
  by (simp add: valid_index_def)

lemma valid_index_Cons_Nil [simp]: "\<not> valid_index (n # s) []"
  by (simp add: valid_index_def)

lemma ravel_less: "valid_index s idx \<Longrightarrow> ravel s idx < prod_list s"
proof (induction s arbitrary: idx)
  case Nil then show ?case by simp
next
  case (Cons n s)
  then obtain i r where idx: "idx = i # r" "i < n" "valid_index s r" by (auto simp: valid_index_Cons)
  have "ravel s r < prod_list s" using Cons.IH idx by simp
  then have "i * prod_list s + ravel s r < i * prod_list s + prod_list s" by simp
  also have "\<dots> = Suc i * prod_list s" by simp
  also have "\<dots> \<le> n * prod_list s" using idx(2) by (intro mult_le_mono1) simp
  finally show ?case using idx by simp
qed

lemma unravel_ravel: "valid_index s idx \<Longrightarrow> unravel s (ravel s idx) = idx"
proof (induction s arbitrary: idx)
  case Nil then show ?case by simp
next
  case (Cons n s)
  then obtain i r where idx: "idx = i # r" "i < n" "valid_index s r" by (auto simp: valid_index_Cons)
  have l: "ravel s r < prod_list s" using idx by (simp add: ravel_less)
  then show ?case using idx Cons.IH by simp
qed

lemma valid_unravel: "k < prod_list s \<Longrightarrow> valid_index s (unravel s k)"
proof (induction s arbitrary: k)
  case Nil then show ?case by simp
next
  case (Cons n s)
  have p: "0 < prod_list s" using Cons.prems by (cases "prod_list s = 0") simp_all
  have "k div prod_list s < n" using Cons.prems p by (simp add: less_mult_imp_div_less mult.commute)
  moreover have "k mod prod_list s < prod_list s" using p by simp
  ultimately show ?case using Cons.IH by simp
qed

lemma ravel_unravel: "k < prod_list s \<Longrightarrow> ravel s (unravel s k) = k"
proof (induction s arbitrary: k)
  case Nil then show ?case by simp
next
  case (Cons n s)
  have p: "0 < prod_list s" using Cons.prems by (cases "prod_list s = 0") simp_all
  have "k mod prod_list s < prod_list s" using p by simp
  then show ?case using Cons.IH by simp
qed

lemma flat_of_flat:
  assumes "length xs = prod_list s"
  shows "flat (of_flat s xs) = map Some xs"
proof -
  have "elem (of_flat s xs) (unravel s k) = Some (xs ! k)" if "k < prod_list s" for k
    using that by (simp add: of_flat_def valid_unravel ravel_unravel)
  then have "map (\<lambda>k. elem (of_flat s xs) (unravel s k)) [0..<prod_list s] = map (\<lambda>k. Some (xs ! k)) [0..<prod_list s]"
    by simp
  also have "\<dots> = map Some (map (\<lambda>k. xs ! k) [0..<length xs])" using assms by simp
  also have "\<dots> = map Some xs" by (simp only: map_nth)
  finally show ?thesis by (simp add: flat_def numel_def of_flat_def)
qed

lemma fsum_map_Some: "fsum (map Some xs) = Some (sum_list xs)"
  using fsum_Some[of "\<lambda>x. x" xs] by simp

lemma mse_loss_of_flat:
  assumes "length xs = prod_list s" "length ys = prod_list s'" "length xs = length ys" "xs \<noteq> []"
  shows "mse_loss (of_flat s xs) (of_flat s' ys) = Inr (Some (spec_mse xs ys))"
proof -
  have n: "numel (of_flat s xs) = length xs" "numel (of_flat s' ys) = length ys"
    using assms by (simp_all add: numel_def of_flat_def)
  have "map2 (\<lambda>a b. fpow2 (fsub a b)) (map Some xs) (map Some ys) = map (\<lambda>(x, y). Some ((x - y)\<^sup>2)) (zip xs ys)"
    by (simp add: zip_map_map fpow2_def fsub_def fmul_def lift2_def power2_eq_square split_def)
  then have "fsum (map2 (\<lambda>a b. fpow2 (fsub a b)) (map Some xs) (map Some ys)) = Some (\<Sum>(x, y)\<leftarrow>zip xs ys. (x - y)\<^sup>2)"
    using fsum_Some[of "\<lambda>(x, y). (x - y)\<^sup>2" "zip xs ys"] by (simp add: split_def)
  moreover have "real (length xs) \<noteq> 0" using assms(4) by simp
  ultimately show ?thesis
    unfolding mse_loss_def n flat_of_flat[OF assms(1)] flat_of_flat[OF assms(2)] spec_mse_def
    using assms(3) by (simp add: fdiv_def)
qed

lemma valid_index_pair: "valid_index [B, C] idx \<longleftrightarrow> (\<exists>b<B. \<exists>c<C. idx = [b, c])"
  by (auto simp: valid_index_Cons)

lemma mat_shape [simp]: "shape (mat B C f) = [B, C]" by (simp add: mat_def)
lemma mat_elem [simp]: "b < B \<Longrightarrow> c < C \<Longrightarrow> elem (mat B C f) [b, c] = Some (f b c)"
  by (simp add: mat_def)

lemma map_t_mat: "map_t g (mat B C f) = mk [B, C] (\<lambda>idx. g (Some (f (idx ! 0) (idx ! 1))))"
  unfolding map_t_def mat_shape by (rule mk_cong) (auto simp: valid_index_pair)

lemma margin_terms_mat:
  "margin_terms (mat B C lab) (mat B C act) = Inr (mat B C (\<lambda>b c. spec_margin_term (lab b c) (act b c)))"
proof -
  have e: "fadd (fmul (Some l) (fpow2 (fclamp_min 0 (fsub (Some (9 / 10)) (Some a)))))
             (fmul (fmul (Some (1 / 2)) (fsub (Some 1) (Some l))) (fpow2 (fclamp_min 0 (fsub (Some a) (Some (1 / 10))))))
           = Some (spec_margin_term l a)" for l a
    by (simp add: fadd_def fmul_def fsub_def fpow2_def fclamp_min_def lift2_def spec_margin_term_def power2_eq_square)
  show ?thesis
    unfolding margin_terms_def Let_def mat_def
    apply (simp add: map_t_def binop_def)
    apply (rule mk_cong)
    apply (auto simp: valid_index_pair bidx_def e)
    done
qed

lemma sum_dim_mat:
  "sum_dim (mat B C f) 1 False = Inr (mk [B] (\<lambda>idx. Some (\<Sum>c\<leftarrow>[0..<C]. f (idx ! 0) c)))"
proof -
  have "fsum (map (\<lambda>k. elem (mat B C f) [b, k]) [0..<C]) = Some (\<Sum>c\<leftarrow>[0..<C]. f b c)" if "b < B" for b
  proof -
    have "map (\<lambda>k. elem (mat B C f) [b, k]) [0..<C] = map (\<lambda>k. Some (f b k)) [0..<C]"
      using that by simp
    then show ?thesis by (simp only: fsum_Some)
  qed
  then show ?thesis
    unfolding sum_dim_def
    apply (simp add: norm_dim_def)
    apply (rule mk_cong)
    apply (auto simp: valid_index_single)
    done
qed

lemma mean_all_vector:
  "mean_all (mk [B] (\<lambda>idx. Some (g (idx ! 0)))) = fdiv (Some (\<Sum>b\<leftarrow>[0..<B]. g b)) (Some (real B))"
proof -
  have "map (\<lambda>k. elem (mk [B] (\<lambda>idx. Some (g (idx ! 0)))) (unravel [B] k)) [0..<B] = map (\<lambda>k. Some (g k)) [0..<B]"
    by simp
  then have "fsum (flat (mk [B] (\<lambda>idx. Some (g (idx ! 0))))) = Some (\<Sum>b\<leftarrow>[0..<B]. g b)"
    unfolding flat_def numel_def shape_mk by (simp only: fsum_Some prod_list.Cons prod_list.Nil mult_1_right)
  then show ?thesis by (simp add: mean_all_def numel_def)
qed

lemma margin_loss_mat:
  "margin_loss (mat B C lab) (mat B C act) =
     Inr (fdiv (Some (\<Sum>b\<leftarrow>[0..<B]. \<Sum>c\<leftarrow>[0..<C]. spec_margin_term (lab b c) (act b c))) (Some (real B)))"
  using mean_all_vector[of B "\<lambda>b. \<Sum>c\<leftarrow>[0..<C]. spec_margin_term (lab b c) (act b c)"]
  by (simp add: margin_loss_def margin_terms_mat sum_dim_mat)

text \<open>
  Claim C6. For a batch of \<open>B > 0\<close> elements, label and activation matrices of the same
  shape and a reconstruction and an image tensor with the same, positive number of
  entries, \<open>CapsuleLoss.forward\<close> returns the margin loss of the specification plus
  0.0005 times the mean squared error of reconstruction and flattened image.
\<close>

theorem CapsuleLoss_forward_spec:
  assumes "0 < B" and "length rs = prod_list sr" and "length ims = prod_list si"
    and "length rs = length ims" and "rs \<noteq> []"
  shows "CapsuleLoss_forward (of_flat si ims) (mat B C lab) (mat B C act) (of_flat sr rs)
       = Inr (Some (spec_margin_loss B C lab act + 0.0005 * spec_mse rs ims))"
  using assms
  by (simp add: CapsuleLoss_forward_def margin_loss_mat mse_loss_of_flat spec_margin_loss_def
      fdiv_def fadd_def fmul_def lift2_def)



theorem CapsuleLoss_forward_spec_witness:
  "(0::nat) < 1 \<and> length [0, 1 :: real] = prod_list [1, 2] \<and> length [0, 0 :: real] = prod_list [1, 1, 1, 2]
   \<and> length [0, 1 :: real] = length [0, 0 :: real] \<and> [0, 1 :: real] \<noteq> [] \<and>
   CapsuleLoss_forward (of_flat [1, 1, 1, 2] [0, 0]) (mat 1 2 (\<lambda>b c. if c = 0 then 1 else 0))
      (mat 1 2 (\<lambda>b c. 1 / 2)) (of_flat [1, 2] [0, 1])
    = Inr (Some (spec_margin_loss 1 2 (\<lambda>b c. if c = 0 then 1 else 0) (\<lambda>b c. 1 / 2) + 0.0005 * spec_mse [0, 1] [0, 0]))"
proof -
  have h: "(0::nat) < 1" "length [0, 1 :: real] = prod_list [1, 2]" "length [0, 0 :: real] = prod_list [1, 1, 1, 2]"
    "length [0, 1 :: real] = length [0, 0 :: real]" "[0, 1 :: real] \<noteq> []" by simp_all
  show ?thesis using h CapsuleLoss_forward_spec [OF h] by simp
qed

lemma mat_cong: "(\<And>b c. b < B \<Longrightarrow> c < C \<Longrightarrow> f b c = g b c) \<Longrightarrow> mat B C f = mat B C g"
  unfolding mat_def by (rule mk_cong) (auto simp: valid_index_pair)

lemma spec_margin_term_nonneg: "0 \<le> l \<Longrightarrow> l \<le> 1 \<Longrightarrow> 0 \<le> spec_margin_term l a"
  by (simp add: spec_margin_term_def)

lemma sum_list_zero: "(\<And>x. x \<in> set xs \<Longrightarrow> f x = (0::real)) \<Longrightarrow> sum_list (map f xs) = 0"
  by (induction xs) simp_all

lemma margin_true_strict:
  fixes a a' :: real
  assumes "a' < a" "a' < 0.9"
  shows "spec_margin_term 1 a < spec_margin_term 1 a'"
proof -
  have "max 0 (0.9 - a) < 0.9 - a'" using assms by simp
  moreover have "0 \<le> max 0 (0.9 - a)" by simp
  ultimately have "(max 0 (0.9 - a))\<^sup>2 < (0.9 - a')\<^sup>2" by (rule power_strict_mono) simp
  moreover have "max 0 (0.9 - a') = 0.9 - a'" using assms by simp
  ultimately show ?thesis by (simp add: spec_margin_term_def)
qed

lemma margin_false_strict:
  fixes a a' :: real
  assumes "a < a'" "0.1 < a'"
  shows "spec_margin_term 0 a < spec_margin_term 0 a'"
proof -
  have "max 0 (a - 0.1) < a' - 0.1" using assms by simp
  moreover have "0 \<le> max 0 (a - 0.1)" by simp
  ultimately have "(max 0 (a - 0.1))\<^sup>2 < (a' - 0.1)\<^sup>2" by (rule power_strict_mono) simp
  moreover have "max 0 (a' - 0.1) = a' - 0.1" using assms by simp
  ultimately show ?thesis by (simp add: spec_margin_term_def)
qed

lemma margin_true_zero: "spec_margin_term 1 a = 0 \<longleftrightarrow> 0.9 \<le> a"
  by (auto simp: spec_margin_term_def max_def)

lemma margin_false_zero: "spec_margin_term 0 a = 0 \<longleftrightarrow> a \<le> 0.1"
  by (auto simp: spec_margin_term_def max_def)

text \<open>
  Claim C9, as amended. With labels that are 0 or 1 and activations equal to the labels
  the margin loss is 0. The term of a class is never negative. For the true class it is 0
  exactly when the activation is at least 0.9, and it grows strictly when the activation
  moves down to a value below 0.9; for another class it is 0 exactly when the activation
  is at most 0.1, and it grows strictly when the activation moves up to a value above 0.1.
\<close>

theorem margin_loss_ideal_and_beyond_margin:
  assumes "0 < B" and "b < B" and "c < C" and "\<forall>b<B. \<forall>c<C. lab b c = 0 \<or> lab b c = 1"
  shows "margin_loss (mat B C lab) (mat B C lab) = Inr (Some 0) \<and>
    (\<exists>m m' t t'. margin_terms (mat B C lab) (mat B C act) = Inr m \<and> elem m [b, c] = Some t \<and>
        margin_terms (mat B C lab) (mat B C act') = Inr m' \<and> elem m' [b, c] = Some t' \<and> 0 \<le> t \<and>
        (lab b c = 1 \<longrightarrow> (t = 0 \<longleftrightarrow> 0.9 \<le> act b c) \<and> (act' b c < act b c \<and> act' b c < 0.9 \<longrightarrow> t < t')) \<and>
        (lab b c = 0 \<longrightarrow> (t = 0 \<longleftrightarrow> act b c \<le> 0.1) \<and> (act b c < act' b c \<and> 0.1 < act' b c \<longrightarrow> t < t')))"
proof -
  have z: "spec_margin_term (lab b c) (lab b c) = 0" if "b < B" "c < C" for b c
  proof -
    have "lab b c = 0 \<or> lab b c = 1" using assms(4) that by simp
    then show ?thesis by (auto simp: spec_margin_term_def)
  qed
  have "(\<Sum>b\<leftarrow>[0..<B]. \<Sum>c\<leftarrow>[0..<C]. spec_margin_term (lab b c) (lab b c)) = 0"
    by (intro sum_list_zero) (simp add: z)
  then have ideal: "margin_loss (mat B C lab) (mat B C lab) = Inr (Some 0)"
    using assms(1) by (simp add: margin_loss_mat fdiv_def)
  have l: "lab b c = 0 \<or> lab b c = 1" using assms by simp
  let ?t = "spec_margin_term (lab b c) (act b c)" and ?t' = "spec_margin_term (lab b c) (act' b c)"
  have e: "elem (mat B C (\<lambda>b c. spec_margin_term (lab b c) (act b c))) [b, c] = Some ?t"
    "elem (mat B C (\<lambda>b c. spec_margin_term (lab b c) (act' b c))) [b, c] = Some ?t'"
    using assms by simp_all
  have nn: "0 \<le> ?t" using l by (auto intro: spec_margin_term_nonneg)
  have p: "(lab b c = 1 \<longrightarrow> (?t = 0 \<longleftrightarrow> 0.9 \<le> act b c) \<and> (act' b c < act b c \<and> act' b c < 0.9 \<longrightarrow> ?t < ?t')) \<and>
        (lab b c = 0 \<longrightarrow> (?t = 0 \<longleftrightarrow> act b c \<le> 0.1) \<and> (act b c < act' b c \<and> 0.1 < act' b c \<longrightarrow> ?t < ?t'))"
    using margin_true_strict[of "act' b c" "act b c"] margin_false_strict[of "act b c" "act' b c"]
    by (simp add: margin_true_zero margin_false_zero)
  show ?thesis
    using ideal e nn p unfolding margin_terms_mat by blast
qed

lemma rows_1_2: "rows [[x, y]] = mat 1 2 (\<lambda>b c. [[x, y]] ! b ! c)"
  by (simp add: rows_def numeral_2_eq_2)

text \<open>
  Moving the activation of the true class from 1 to 0.95 leaves its term at 0: inside the
  margin the term does not grow.
\<close>

theorem margin_term_not_strict_counterexample:
  "margin_terms (rows [[1, 0]]) (rows [[1, 0]]) = Inr (rows [[0, 0]]) \<and>
   margin_terms (rows [[1, 0]]) (rows [[0.95, 0]]) = Inr (rows [[0, 0]])"
proof -
  have "mat 1 2 (\<lambda>b c. spec_margin_term ([[1, 0]] ! b ! c) ([[1, 0]] ! b ! c)) = mat 1 2 (\<lambda>b c. [[0, 0]] ! b ! c)"
    by (rule mat_cong) (auto simp: spec_margin_term_def less_Suc_eq numeral_2_eq_2)
  moreover have "mat 1 2 (\<lambda>b c. spec_margin_term ([[1, 0]] ! b ! c) ([[0.95, 0]] ! b ! c)) = mat 1 2 (\<lambda>b c. [[0, 0]] ! b ! c)"
    by (rule mat_cong) (auto simp: spec_margin_term_def less_Suc_eq numeral_2_eq_2)
  ultimately show ?thesis by (simp only: rows_1_2 margin_terms_mat)
qed

theorem margin_loss_ideal_and_beyond_margin_witness:
  "margin_loss (mat 1 2 (\<lambda>b c. if c = 0 then 1 else 0)) (mat 1 2 (\<lambda>b c. if c = 0 then 1 else 0)) = Inr (Some 0) \<and>
    (\<exists>m m' t t'. margin_terms (mat 1 2 (\<lambda>b c. if c = 0 then 1 else 0)) (mat 1 2 (\<lambda>b c. if c = 0 then 1 else 0)) = Inr m \<and>
        elem m [0, 0] = Some t \<and>
        margin_terms (mat 1 2 (\<lambda>b c. if c = 0 then 1 else 0)) (mat 1 2 (\<lambda>b c. if c = 0 then 1 / 2 else 0)) = Inr m' \<and>
        elem m' [0, 0] = Some t' \<and> 0 \<le> t \<and> t = 0 \<and> t < t')"
proof -
  have h: "(0::nat) < 1" "(0::nat) < 2"
    "\<forall>b<(1::nat). \<forall>c<(2::nat). (if c = 0 then 1 else 0) = (0::real) \<or> (if c = 0 then 1 else 0) = (1::real)"
    by simp_all
  show ?thesis
    using margin_loss_ideal_and_beyond_margin [OF h(1) h(1) h(2) h(3),
        of "\<lambda>b c. if c = 0 then 1 else 0" "\<lambda>b c. if c = 0 then 1 / 2 else 0"]
    by (elim conjE exE) (intro conjI exI, assumption+, auto)
qed



lemma nth_swap:
  "i < length xs \<Longrightarrow> j < length xs \<Longrightarrow> m < length xs \<Longrightarrow>
   (xs[i := xs ! j, j := xs ! i]) ! m = (if m = j then xs ! i else if m = i then xs ! j else xs ! m)"
  by (simp add: nth_upd)

lemma swap_swap:
  assumes "i < length xs" "j < length xs"
  shows "(xs[i := xs ! j, j := xs ! i])[i := (xs[i := xs ! j, j := xs ! i]) ! j, j := (xs[i := xs ! j, j := xs ! i]) ! i] = xs"
  using assms by (intro nth_equalityI) (auto simp: nth_upd)

lemma valid_index_swap:
  assumes "valid_index s idx" "i < length s" "j < length s"
  shows "valid_index (s[i := s ! j, j := s ! i]) (idx[i := idx ! j, j := idx ! i])"
  using assms unfolding valid_index_iff by (auto simp: nth_upd)

lemma swap_update_last:
  assumes "j < length idx" "l < length idx"
  shows "((idx[j := idx ! l, l := idx ! j])[l := k])[j := ((idx[j := idx ! l, l := idx ! j])[l := k]) ! l,
            l := ((idx[j := idx ! l, l := idx ! j])[l := k]) ! j] = idx[j := k]"
  using assms by (intro nth_equalityI) (auto simp: nth_upd)

lemma ravel_snoc:
  "length p = length ps \<Longrightarrow> ravel (ps @ [L]) (p @ [c]) = ravel ps p * L + c"
proof (induction p ps rule: list_induct2)
  case Nil then show ?case by simp
next
  case (Cons i p n ps)
  then show ?case by (simp add: algebra_simps)
qed

lemma valid_index_snoc:
  "valid_index (ps @ [L]) idx \<longleftrightarrow> (\<exists>p c. idx = p @ [c] \<and> valid_index ps p \<and> c < L)"
proof
  assume v: "valid_index (ps @ [L]) idx"
  then have len: "length idx = Suc (length ps)" by (simp add: valid_index_iff)
  then have ne: "idx \<noteq> []" by auto
  have "valid_index ps (butlast idx)"
    using v len unfolding valid_index_iff
    by (auto simp: nth_butlast nth_append split: if_splits)
  moreover have "last idx < L"
    using v len ne unfolding valid_index_iff
    by (metis diff_Suc_1 last_conv_nth length_append_singleton lessI nth_append_length)
  ultimately show "\<exists>p c. idx = p @ [c] \<and> valid_index ps p \<and> c < L"
    using ne by (metis append_butlast_last_id)
next
  assume "\<exists>p c. idx = p @ [c] \<and> valid_index ps p \<and> c < L"
  then show "valid_index (ps @ [L]) idx"
    by (auto simp: valid_index_def list_all2_appendI)
qed

lemma norm_dim_int [simp]: "j < n \<Longrightarrow> norm_dim n (int j) = Some j"
  by (simp add: norm_dim_def)

lemma norm_dim_pred [simp]: "0 < n \<Longrightarrow> norm_dim n (int n - 1) = Some (n - 1)"
  by (auto simp: norm_dim_def)

lemma infer_size_2d:
  assumes "0 < L" "n = R * L"
  shows "infer_size n [- 1, int L] = Some [R, L]"
  using assms by (simp add: infer_size_def)

lemma infer_size_plain: "infer_size n (map int s) = Some s"
proof -
  have "filter (\<lambda>z. z = - 1) (map int s) = []" by (induction s) auto
  moreover have "- 1 \<notin> set (map int s)" by auto
  moreover have "\<not> (\<exists>z \<in> set (map int s). z < - 1)" by auto
  moreover have "map nat (map int s) = s" by (induction s) auto
  ultimately show ?thesis unfolding infer_size_def Let_def by simp
qed

lemma unravel_2d: "c < L \<Longrightarrow> unravel [R, L] (r * L + c) = [r, c]"
  by simp

lemma softmax_eq:
  assumes j: "j < length (shape t)" and pos: "0 < shape t ! j"
  shows "softmax t (int j) = Inr (softmax_along t j)"
proof -
  let ?s = "shape t"
  define n where "n = length ?s"
  define l where "l = n - 1"
  define L where "L = ?s ! j"
  have n: "0 < n" "j < n" "l < n" using j by (auto simp: n_def l_def)
  define st where "st = ?s[j := ?s ! l, l := ?s ! j]"
  define trans where "trans = mk st (\<lambda>idx. elem t (idx[j := idx ! l, l := idx ! j]))"
  have t1: "transpose_t t (int j) (int (length ?s) - 1) = Inr trans"
    using n by (simp add: transpose_t_def trans_def st_def n_def[symmetric] l_def)
  have lst: "length st = n" by (simp add: st_def n_def)
  have st_ne: "st \<noteq> []" using lst n by auto
  have last_st: "last st = L"
    using n by (simp add: last_conv_nth st_ne lst st_def L_def n_def l_def nth_upd)
  define ps where "ps = butlast st"
  have st_eq: "st = ps @ [L]" using st_ne last_st by (metis append_butlast_last_id ps_def)
  define R where "R = prod_list ps"
  have numel_trans: "numel trans = R * L" by (simp add: numel_def trans_def st_eq R_def)
  define i2d where "i2d = mk [R, L] (\<lambda>idx. elem trans (unravel st (ravel [R, L] idx)))"
  have L: "0 < L" using pos by (simp add: L_def)
  have t2: "view trans [- 1, int (last (shape trans))] = Inr i2d"
    using infer_size_2d[OF L numel_trans]
    by (simp add: view_def trans_def last_st numel_trans[unfolded trans_def] i2d_def)
  define s2d where "s2d = softmax_along i2d 1"
  have t3: "F_softmax i2d = s2d" by (simp add: F_softmax_def s2d_def i2d_def)
  define snd' where "snd' = mk st (\<lambda>idx. elem s2d (unravel [R, L] (ravel st idx)))"
  have numel_s2d: "numel s2d = R * L" by (simp add: numel_def s2d_def softmax_along_def i2d_def)
  have "prod_list st = R * L" by (simp add: st_eq R_def)
  moreover have sh_trans: "shape trans = st" by (simp add: trans_def)
  moreover have sh_s2d: "shape s2d = [R, L]" by (simp add: s2d_def softmax_along_def i2d_def)
  ultimately have t4: "view s2d (map int (shape trans)) = Inr snd'"
    by (simp add: view_def infer_size_plain numel_s2d snd'_def)
  have sw: "st[j := st ! l, l := st ! j] = ?s"
    unfolding st_def using n by (intro swap_swap) (simp_all add: n_def)
  have t5: "transpose_t snd' (int j) (int (length ?s) - 1)
      = Inr (mk ?s (\<lambda>idx. elem snd' (idx[j := idx ! l, l := idx ! j])))"
    using n sw by (simp add: transpose_t_def snd'_def lst n_def[symmetric] l_def)
  have fin: "mk ?s (\<lambda>idx. elem snd' (idx[j := idx ! l, l := idx ! j])) = softmax_along t j"
    unfolding softmax_along_def
  proof (rule mk_cong)
    fix idx assume v: "valid_index ?s idx"
    define idx' where "idx' = idx[j := idx ! l, l := idx ! j]"
    have len: "length idx = n" using v by (simp add: valid_index_iff n_def)
    have v': "valid_index st idx'"
      unfolding st_def idx'_def using v n by (intro valid_index_swap) (simp_all add: n_def)
    then obtain p c where pc: "idx' = p @ [c]" "valid_index ps p" "c < L"
      unfolding st_eq valid_index_snoc by blast
    have lp: "length p = length ps" using pc(2) by (simp add: valid_index_iff)
    define r where "r = ravel ps p"
    have r: "r < R" unfolding r_def R_def using pc(2) by (rule ravel_less)
    have rav: "ravel st (p @ [k]) = r * L + k" for k
      unfolding st_eq r_def using lp by (rule ravel_snoc)
    have vk: "valid_index st (p @ [k])" if "k < L" for k
      unfolding st_eq valid_index_snoc using pc(2) that by blast
    have lidx': "length idx' = n" by (simp add: idx'_def len)
    have lp': "length p = l" using lidx' pc(1) by (simp add: l_def)
    have pk: "p @ [k] = idx'[l := k]" for k
      unfolding pc(1) lp'[symmetric] by simp
    have cell: "elem i2d [r, k] = elem t (idx[j := k])" if "k < L" for k
    proof -
      have "elem i2d [r, k] = elem trans (unravel st (r * L + k))"
        using r that by (simp add: i2d_def)
      also have "\<dots> = elem trans (p @ [k])"
        using unravel_ravel[OF vk[OF that]] by (simp add: rav)
      also have "\<dots> = elem t ((p @ [k])[j := (p @ [k]) ! l, l := (p @ [k]) ! j])"
        unfolding trans_def using vk[OF that] by simp
      also have "(p @ [k])[j := (p @ [k]) ! l, l := (p @ [k]) ! j] = idx[j := k]"
        unfolding pk idx'_def using n len by (intro swap_update_last) simp_all
      finally show ?thesis .
    qed
    have idxc: "idx[j := c] = idx"
    proof -
      have "idx' ! l = c" unfolding pc(1) lp'[symmetric] by simp
      then have "idx ! j = c" using n len by (simp add: idx'_def nth_upd)
      then show ?thesis by (metis list_update_id)
    qed
    have "elem snd' idx' = elem s2d (unravel [R, L] (ravel st idx'))"
      unfolding snd'_def using v' by simp
    also have "\<dots> = elem s2d [r, c]"
      unfolding pc(1) rav using pc(3) by (simp only: unravel_2d)
    also have "\<dots> = fdiv (fexp (elem i2d [r, c])) (fsum (map (\<lambda>k. fexp (elem i2d ([r, c][1 := k]))) [0..<L]))"
      unfolding s2d_def softmax_along_def using r pc(3) by (simp add: i2d_def)
    also have "map (\<lambda>k. fexp (elem i2d ([r, c][1 := k]))) [0..<L] = map (\<lambda>k. fexp (elem t (idx[j := k]))) [0..<L]"
      by (rule map_cong[OF refl]) (simp add: cell)
    also have "elem i2d [r, c] = elem t idx" using cell[OF pc(3)] idxc by simp
    finally show "elem snd' (idx[j := idx ! l, l := idx ! j])
        = fdiv (fexp (elem t idx)) (fsum (map (\<lambda>k. fexp (elem t (idx[j := k]))) [0..<?s ! j]))"
      unfolding idx'_def L_def .
  qed
  show ?thesis
    unfolding softmax_def Let_def t1 bindE_Inr t2 t3 t4 t5 fin ..
qed



lemma map_upt_cong: "n = n' \<Longrightarrow> (\<And>k. k < n' \<Longrightarrow> f k = g k) \<Longrightarrow> map f [0..<n] = map g [0..<n']"
  by simp

lemma valid_index5:
  "valid_index [a, b, c, d, e] idx \<longleftrightarrow>
     (\<exists>i j k l m. idx = [i, j, k, l, m] \<and> i < a \<and> j < b \<and> k < c \<and> l < d \<and> m < e)"
  by (auto simp: valid_index_Cons)

lemma clip_id: "i < n \<Longrightarrow> (if n = Suc 0 then 0 else i) = i"
  by auto

lemma bidx5: "bidx [a, b, c, d, e] [i, j, k, l, m] =
   [if a = 1 then 0 else i, if b = 1 then 0 else j, if c = 1 then 0 else k, if d = 1 then 0 else l, if e = 1 then 0 else m]"
  by (simp add: bidx_def)

lemma binop_mk:
  assumes "broadcast_shapes sa sb = Some s"
    and "\<And>idx. valid_index s idx \<Longrightarrow> f (elem (mk sa F) (bidx sa idx)) (elem (mk sb G) (bidx sb idx)) = H idx"
  shows "binop f (mk sa F) (mk sb G) = Inr (mk s H)"
proof -
  have "binop f (mk sa F) (mk sb G)
      = Inr (mk s (\<lambda>idx. f (elem (mk sa F) (bidx sa idx)) (elem (mk sb G) (bidx sb idx))))"
    using assms(1) by (simp add: binop_def)
  also have "mk s (\<lambda>idx. f (elem (mk sa F) (bidx sa idx)) (elem (mk sb G) (bidx sb idx))) = mk s H"
    by (rule mk_cong) (rule assms(2))
  finally show ?thesis .
qed

lemma sum_dim_keep_mk:
  assumes "norm_dim (length s) d = Some j"
    and "\<And>idx. valid_index (s[j := 1]) idx \<Longrightarrow> fsum (map (\<lambda>k. elem (mk s F) (idx[j := k])) [0..<s ! j]) = H idx"
  shows "sum_dim (mk s F) d True = Inr (mk (s[j := 1]) H)"
proof -
  have "sum_dim (mk s F) d True = Inr (mk (s[j := 1]) (\<lambda>idx. fsum (map (\<lambda>k. elem (mk s F) (idx[j := k])) [0..<s ! j])))"
    using assms(1) by (simp add: sum_dim_def)
  also have "mk (s[j := 1]) (\<lambda>idx. fsum (map (\<lambda>k. elem (mk s F) (idx[j := k])) [0..<s ! j])) = mk (s[j := 1]) H"
    by (rule mk_cong) (rule assms(2))
  finally show ?thesis .
qed

lemma bcast5_left:
  assumes "B' = B \<or> B' = 1"
  shows "broadcast_shapes [M, B', N, 1, 1] [M, B, N, 1, D] = Some [M, B, N, 1, D]"
  by (rule broadcast_shapes_stretch) (use assms in \<open>auto simp: nth_Cons split: nat.splits\<close>)

lemma bcast5_right:
  "broadcast_shapes [M, B, N, 1, D] [M, B, 1, 1, D] = Some [M, B, N, 1, D]"
  by (rule broadcast_shapes_stretch2) (auto simp: nth_Cons split: nat.splits)

lemma bcast5_logits:
  assumes "B' = B \<or> B' = 1"
  shows "broadcast_shapes [M, B', N, 1, 1] [M, B, N, 1, 1] = Some [M, B, N, 1, 1]"
  by (rule broadcast_shapes_stretch) (use assms in \<open>auto simp: nth_Cons split: nat.splits\<close>)

lemma softmax_logits:
  assumes "0 < N"
  shows "softmax (logits_t M B' N lg) 2 = Inr (logits_t M B' N (spec_coupling N lg))"
proof -
  let ?t = "logits_t M B' N lg"
  have sh: "shape ?t = [M, B', N, 1, 1]" by (simp add: logits_t_def)
  have "softmax ?t (int 2) = Inr (softmax_along ?t 2)"
    by (rule softmax_eq) (simp_all add: sh assms)
  moreover have "softmax_along ?t 2 = logits_t M B' N (spec_coupling N lg)"
    unfolding softmax_along_def sh unfolding logits_t_def
  proof (rule mk_cong)
    fix idx assume "valid_index [M, B', N, 1, 1] idx"
    then obtain m b n where idx: "idx = [m, b, n, 0, 0]" "m < M" "b < B'" "n < N"
      by (auto simp: valid_index5)
    show "fdiv (fexp (elem (mk [M, B', N, 1, 1] (\<lambda>idx. lg (idx ! 0) (idx ! 1) (idx ! 2))) idx))
          (fsum (map (\<lambda>k. fexp (elem (mk [M, B', N, 1, 1] (\<lambda>idx. lg (idx ! 0) (idx ! 1) (idx ! 2))) (idx[2 := k])))
             [0..<[M, B', N, 1, 1] ! 2]))
        = spec_coupling N lg (idx ! 0) (idx ! 1) (idx ! 2)"
      using idx by (simp add: spec_coupling_def cong: map_upt_cong)
  qed
  ultimately show ?thesis by simp
qed

lemma spec_coupling_indep: "batch_indep lg \<Longrightarrow> spec_coupling N lg m b n = spec_coupling N lg m 0 n"
proof -
  assume a: "batch_indep lg"
  have "lg m b k = lg m 0 k" for k using a unfolding batch_indep_def by blast
  then show ?thesis by (simp add: spec_coupling_def)
qed

lemma weighted_votes:
  assumes "B' = B \<or> (B' = 1 \<and> batch_indep lg)"
  shows "binop fmul (logits_t M B' N (spec_coupling N lg)) (votes_t M B N D V)
     = Inr (mk [M, B, N, 1, D] (\<lambda>idx. fmul (spec_coupling N lg (idx ! 0) (idx ! 1) (idx ! 2)) (V (idx ! 0) (idx ! 1) (idx ! 2) (idx ! 4))))"
  unfolding logits_t_def votes_t_def
proof (rule binop_mk)
  show "broadcast_shapes [M, B', N, 1, 1] [M, B, N, 1, D] = Some [M, B, N, 1, D]"
    using assms by (intro bcast5_left) auto
next
  fix idx assume "valid_index [M, B, N, 1, D] idx"
  then obtain m b n d where idx: "idx = [m, b, n, 0, d]" "m < M" "b < B" "n < N" "d < D"
    by (auto simp: valid_index5)
  from assms show "fmul (elem (mk [M, B', N, 1, 1] (\<lambda>idx. spec_coupling N lg (idx ! 0) (idx ! 1) (idx ! 2))) (bidx [M, B', N, 1, 1] idx))
         (elem (mk [M, B, N, 1, D] (\<lambda>idx. V (idx ! 0) (idx ! 1) (idx ! 2) (idx ! 4))) (bidx [M, B, N, 1, D] idx))
      = fmul (spec_coupling N lg (idx ! 0) (idx ! 1) (idx ! 2)) (V (idx ! 0) (idx ! 1) (idx ! 2) (idx ! 4))"
  proof
    assume "B' = B"
    then show ?thesis using idx by (simp add: bidx5 clip_id)
  next
    assume a: "B' = 1 \<and> batch_indep lg"
    then have e: "spec_coupling N lg m 0 n = spec_coupling N lg m b n" by (simp add: spec_coupling_indep[of lg N m b n])
    have "bidx [M, B', N, 1, 1] idx = [m, 0, n, 0, 0]" using idx a by (simp add: bidx5 clip_id)
    moreover have "bidx [M, B, N, 1, D] idx = idx" using idx by (simp add: bidx5 clip_id)
    ultimately show ?thesis using idx a by (simp add: e)
  qed
qed

lemma summed_votes:
  "sum_dim (mk [M, B, N, 1, D] (\<lambda>idx. fmul (spec_coupling N lg (idx ! 0) (idx ! 1) (idx ! 2)) (V (idx ! 0) (idx ! 1) (idx ! 2) (idx ! 4)))) 2 True
     = Inr (outputs_t M B D (\<lambda>m b d. fsum (map (\<lambda>n. fmul (spec_coupling N lg m b n) (V m b n d)) [0..<N])))"
proof -
  have nd: "norm_dim (length [M, B, N, 1, D]) 2 = Some 2" by (simp add: norm_dim_def)
  have "sum_dim (mk [M, B, N, 1, D] (\<lambda>idx. fmul (spec_coupling N lg (idx ! 0) (idx ! 1) (idx ! 2)) (V (idx ! 0) (idx ! 1) (idx ! 2) (idx ! 4)))) 2 True
     = Inr (mk ([M, B, N, 1, D][2 := 1]) (\<lambda>idx. fsum (map (\<lambda>n. fmul (spec_coupling N lg (idx ! 0) (idx ! 1) n) (V (idx ! 0) (idx ! 1) n (idx ! 4))) [0..<N])))"
  proof (rule sum_dim_keep_mk[OF nd])
    fix idx assume "valid_index ([M, B, N, 1, D][2 := 1]) idx"
    then obtain m b d where idx: "idx = [m, b, 0, 0, d]" "m < M" "b < B" "d < D"
      by (auto simp: valid_index5)
    show "fsum (map (\<lambda>k. elem (mk [M, B, N, 1, D] (\<lambda>idx. fmul (spec_coupling N lg (idx ! 0) (idx ! 1) (idx ! 2)) (V (idx ! 0) (idx ! 1) (idx ! 2) (idx ! 4)))) (idx[2 := k])) [0..<[M, B, N, 1, D] ! 2])
       = fsum (map (\<lambda>n. fmul (spec_coupling N lg (idx ! 0) (idx ! 1) n) (V (idx ! 0) (idx ! 1) n (idx ! 4))) [0..<N])"
      using idx by (simp cong: map_upt_cong)
  qed
  then show ?thesis by (simp add: outputs_t_def)
qed

lemma squash_outputs:
  "squash (outputs_t M B D u) (- 1) = Inr (outputs_t M B D (\<lambda>m b. spec_squash D (u m b)))"
proof -
  let ?t = "outputs_t M B D u"
  have sh: "shape ?t = [M, B, 1, 1, D]" by (simp add: outputs_t_def)
  have "norm_dim (length (shape ?t)) (- 1) = Some 4" by (simp add: sh norm_dim_def)
  then have "squash ?t (- 1) = Inr (mk (shape ?t) (\<lambda>idx. squash_val (sqnorm_at ?t 4 idx) (elem ?t idx)))"
    by (rule squash_eq)
  also have "mk (shape ?t) (\<lambda>idx. squash_val (sqnorm_at ?t 4 idx) (elem ?t idx))
      = outputs_t M B D (\<lambda>m b. spec_squash D (u m b))"
    unfolding sh unfolding outputs_t_def
  proof (rule mk_cong)
    fix idx assume "valid_index [M, B, 1, 1, D] idx"
    then obtain m b d where idx: "idx = [m, b, 0, 0, d]" "m < M" "b < B" "d < D"
      by (auto simp: valid_index5)
    show "squash_val (sqnorm_at (mk [M, B, 1, 1, D] (\<lambda>idx. u (idx ! 0) (idx ! 1) (idx ! 4))) 4 idx)
            (elem (mk [M, B, 1, 1, D] (\<lambda>idx. u (idx ! 0) (idx ! 1) (idx ! 4))) idx)
        = spec_squash D (u (idx ! 0) (idx ! 1)) (idx ! 4)"
      using idx by (simp add: sqnorm_at_def spec_squash_def cong: map_upt_cong)
  qed
  finally show ?thesis .
qed

lemma agreement:
  "binop fmul (votes_t M B N D V) (outputs_t M B D out)
     = Inr (mk [M, B, N, 1, D] (\<lambda>idx. fmul (V (idx ! 0) (idx ! 1) (idx ! 2) (idx ! 4)) (out (idx ! 0) (idx ! 1) (idx ! 4))))"
  unfolding outputs_t_def votes_t_def
proof (rule binop_mk)
  show "broadcast_shapes [M, B, N, 1, D] [M, B, 1, 1, D] = Some [M, B, N, 1, D]" by (rule bcast5_right)
next
  fix idx assume "valid_index [M, B, N, 1, D] idx"
  then obtain m b n d where idx: "idx = [m, b, n, 0, d]" "m < M" "b < B" "n < N" "d < D"
    by (auto simp: valid_index5)
  show "fmul (elem (mk [M, B, N, 1, D] (\<lambda>idx. V (idx ! 0) (idx ! 1) (idx ! 2) (idx ! 4))) (bidx [M, B, N, 1, D] idx))
         (elem (mk [M, B, 1, 1, D] (\<lambda>idx. out (idx ! 0) (idx ! 1) (idx ! 4))) (bidx [M, B, 1, 1, D] idx))
      = fmul (V (idx ! 0) (idx ! 1) (idx ! 2) (idx ! 4)) (out (idx ! 0) (idx ! 1) (idx ! 4))"
    using idx by (simp add: bidx5 clip_id)
qed

lemma delta_logits:
  "sum_dim (mk [M, B, N, 1, D] (\<lambda>idx. fmul (V (idx ! 0) (idx ! 1) (idx ! 2) (idx ! 4)) (out (idx ! 0) (idx ! 1) (idx ! 4)))) (- 1) True
     = Inr (logits_t M B N (\<lambda>m b n. fsum (map (\<lambda>d. fmul (V m b n d) (out m b d)) [0..<D])))"
proof -
  have nd: "norm_dim (length [M, B, N, 1, D]) (- 1) = Some 4" by (simp add: norm_dim_def)
  have "sum_dim (mk [M, B, N, 1, D] (\<lambda>idx. fmul (V (idx ! 0) (idx ! 1) (idx ! 2) (idx ! 4)) (out (idx ! 0) (idx ! 1) (idx ! 4)))) (- 1) True
     = Inr (mk ([M, B, N, 1, D][4 := 1]) (\<lambda>idx. fsum (map (\<lambda>d. fmul (V (idx ! 0) (idx ! 1) (idx ! 2) d) (out (idx ! 0) (idx ! 1) d)) [0..<D])))"
  proof (rule sum_dim_keep_mk[OF nd])
    fix idx assume "valid_index ([M, B, N, 1, D][4 := 1]) idx"
    then obtain m b n where idx: "idx = [m, b, n, 0, 0]" "m < M" "b < B" "n < N"
      by (auto simp: valid_index5)
    show "fsum (map (\<lambda>k. elem (mk [M, B, N, 1, D] (\<lambda>idx. fmul (V (idx ! 0) (idx ! 1) (idx ! 2) (idx ! 4)) (out (idx ! 0) (idx ! 1) (idx ! 4)))) (idx[4 := k])) [0..<[M, B, N, 1, D] ! 4])
       = fsum (map (\<lambda>d. fmul (V (idx ! 0) (idx ! 1) (idx ! 2) d) (out (idx ! 0) (idx ! 1) d)) [0..<D])"
      using idx by (simp cong: map_upt_cong)
  qed
  then show ?thesis by (simp add: logits_t_def)
qed

lemma add_logits:
  assumes "B' = B \<or> (B' = 1 \<and> batch_indep lg)"
  shows "binop fadd (logits_t M B' N lg) (logits_t M B N dl)
     = Inr (logits_t M B N (\<lambda>m b n. fadd (lg m b n) (dl m b n)))"
  unfolding logits_t_def
proof (rule binop_mk)
  show "broadcast_shapes [M, B', N, 1, 1] [M, B, N, 1, 1] = Some [M, B, N, 1, 1]"
    using assms by (intro bcast5_logits) auto
next
  fix idx assume "valid_index [M, B, N, 1, 1] idx"
  then obtain m b n where idx: "idx = [m, b, n, 0, 0]" "m < M" "b < B" "n < N"
    by (auto simp: valid_index5)
  from assms show "fadd (elem (mk [M, B', N, 1, 1] (\<lambda>idx. lg (idx ! 0) (idx ! 1) (idx ! 2))) (bidx [M, B', N, 1, 1] idx))
         (elem (mk [M, B, N, 1, 1] (\<lambda>idx. dl (idx ! 0) (idx ! 1) (idx ! 2))) (bidx [M, B, N, 1, 1] idx))
      = fadd (lg (idx ! 0) (idx ! 1) (idx ! 2)) (dl (idx ! 0) (idx ! 1) (idx ! 2))"
  proof
    assume "B' = B"
    then show ?thesis using idx by (simp add: bidx5 clip_id)
  next
    assume a: "B' = 1 \<and> batch_indep lg"
    then have e: "lg m 0 n = lg m b n" unfolding batch_indep_def by metis
    have "bidx [M, B', N, 1, 1] idx = [m, 0, n, 0, 0]" using idx a by (simp add: bidx5 clip_id)
    moreover have "bidx [M, B, N, 1, 1] idx = idx" using idx by (simp add: bidx5 clip_id)
    ultimately show ?thesis using idx a by (simp add: e)
  qed
qed

lemma routing_step_eq:
  assumes "0 < N" and "B' = B \<or> (B' = 1 \<and> batch_indep lg)"
  shows "routing_step (votes_t M B N D V) T i (logits_t M B' N lg)
     = Inr (if i \<noteq> T - 1 then logits_t M B N (spec_update N D V lg) else logits_t M B' N lg,
            outputs_t M B D (spec_output N D V lg))"
proof -
  have sq: "squash (outputs_t M B D (\<lambda>m b d. fsum (map (\<lambda>n. fmul (spec_coupling N lg m b n) (V m b n d)) [0..<N]))) (- 1)
      = Inr (outputs_t M B D (spec_output N D V lg))"
  proof -
    have "(\<lambda>m b. spec_squash D (\<lambda>d. fsum (map (\<lambda>n. fmul (spec_coupling N lg m b n) (V m b n d)) [0..<N])))
        = spec_output N D V lg"
      by (intro ext) (simp add: spec_output_def)
    then show ?thesis unfolding squash_outputs by simp
  qed
  have up: "(\<lambda>m b n. fadd (lg m b n) (fsum (map (\<lambda>d. fmul (V m b n d) (spec_output N D V lg m b d)) [0..<D])))
      = spec_update N D V lg"
    by (simp add: spec_update_def fun_eq_iff)
  show ?thesis
    unfolding routing_step_def softmax_logits[OF assms(1)] bindE_Inr weighted_votes[OF assms(2)]
      summed_votes sq agreement delta_logits add_logits[OF assms(2)] up
    by simp
qed

end
